theory Spec2Isabelle
  imports Main "HOL-Library.Word" "HOL-Library.Sublist"
begin

unbundle bit_operations_syntax

section \<open>The proc-based socket owner scan of procspy\<close>

text \<open>
  The Go file walks the proc filesystem: it groups the processes of a host by network
  namespace, reads the TCP connection tables of every group into one shared buffer and
  records, for every descriptor of socket type, the inode and the owning process.

  Everything the code asks of the operating system is read from a \<open>world\<close>: a sequence
  of snapshots of the host, indexed by the number of interactions the program has had with
  its environment so far (the field \<open>clock\<close> of the program state). A file that
  disappears between two system calls is a world whose snapshots differ; an unchanged
  host is a constant world.
\<close>

subsection \<open>Data\<close>

text \<open>
  A path is the list of its elements, and \<open>filepath.Join\<close> appends element lists
  (the cleaning of \<open>.\<close>, \<open>..\<close> and empty elements is not modelled; the code joins the
  proc root, a decimal PID and fixed names).
\<close>

type_synonym path = "string list"

type_synonym bytes = "8 word list"

datatype error = Error string

text \<open>The parsed kernel version, identified by the release string it was parsed from.\<close>

type_synonym version = string

text \<open>\<open>syscall.Stat_t\<close>: the two fields the code reads.\<close>

record stat_t =
  Mode :: "32 word"
  Ino :: "64 word"

text \<open>\<open>process.Process\<close> (the fields used here; Go's \<open>int\<close> is 64 bits wide).\<close>

record process =
  pPID :: "64 word"
  pName :: string

text \<open>\<open>Proc\<close>, the owner record stored in the result; its PID is a \<open>uint\<close>.\<close>

record Proc =
  PID :: "64 word"
  Name :: string

text \<open>
  What opening a file and reading it to the end gives: \<open>fs.Open\<close> fails, or the bytes
  that \<open>ReadFrom\<close> got, with the error that stopped it, if any.
\<close>

datatype file_read = OpenFails error | ReadsTo bytes "error option"

record snapshot =
  openRead :: "path \<Rightarrow> file_read"
  readDirNames :: "path \<Rightarrow> error + string list"
  stat :: "path \<Rightarrow> error + stat_t"
  kernelVersion :: "error + version"

type_synonym world = "nat \<Rightarrow> snapshot"

text \<open>
  The program state: the two package variables, the buffer and the result map that the
  functions share by reference, and the clock. The last five fields are counters of
  events that the theorems speak about; no function reads them:
  \<open>ticks\<close> counts receives from the ticker, \<open>pauses\<close> those of them made by
  \<open>walkNamespacePid\<close> beyond the descriptor budget, \<open>probes\<close> calls of
  \<open>getKernelVersion\<close>, \<open>tableReads\<close> calls of \<open>readProcessConnections\<close>, and
  \<open>examined\<close> the descriptor entries examined (the increments of \<open>fdBlockCount\<close>).
\<close>

record state =
  procRoot :: path
  netNamespacePathSuffix :: path
  buf :: bytes
  sockets :: "64 word \<rightharpoonup> Proc"
  clock :: nat
  ticks :: nat
  pauses :: nat
  probes :: nat
  tableReads :: nat
  examined :: nat

definition S_IFMT :: "32 word" where
  "S_IFMT = 0xf000"

definition S_IFSOCK :: "32 word" where
  "S_IFSOCK = 0xc000"

definition post38Path :: path where
  "post38Path = [''ns'', ''net'']"

definition pre38Path :: path where
  "pre38Path = [''net'', ''dev'']"

text \<open>
  The state of a freshly started program: the package variables as declared, an empty
  buffer and map, all counters at zero.
\<close>

definition initState :: state where
  "initState = \<lparr>procRoot = [''proc''], netNamespacePathSuffix = [], buf = [], sockets = Map.empty,
     clock = 0, ticks = 0, pauses = 0, probes = 0, tableReads = 0, examined = 0\<rparr>"

subsection \<open>Library functions\<close>

definition Join :: "path list \<Rightarrow> path" where
  "Join elems = concat elems"

fun digitsOf :: "nat \<Rightarrow> string" where
  "digitsOf n =
     (if n < 10 then [char_of (48 + n)]
      else digitsOf (n div 10) @ [char_of (48 + n mod 10)])"

declare digitsOf.simps [simp del]

text \<open>\<open>strconv.Itoa\<close>.\<close>

definition Itoa :: "int \<Rightarrow> string" where
  "Itoa i = (if i < 0 then CHR ''-'' # digitsOf (nat (- i)) else digitsOf (nat i))"

subsection \<open>Interactions with the environment\<close>

text \<open>Every interaction reads the snapshot of the current instant and advances the clock.\<close>

definition advance :: "state \<Rightarrow> state" where
  "advance s = s\<lparr>clock := Suc (clock s)\<rparr>"

text \<open>
  \<open><-ticker\<close>. The tick source is taken to be live: the receive returns, and is counted.
\<close>

definition recvTick :: "state \<Rightarrow> state" where
  "recvTick s = advance (s\<lparr>ticks := Suc (ticks s)\<rparr>)"

text \<open>The receive of \<open>walkNamespacePid\<close>, made when the count is beyond the budget.\<close>

definition rateLimitPause :: "state \<Rightarrow> state" where
  "rateLimitPause s = recvTick (s\<lparr>pauses := Suc (pauses s)\<rparr>)"

definition fsStat :: "world \<Rightarrow> path \<Rightarrow> state \<Rightarrow> (error + stat_t) \<times> state" where
  "fsStat w name s = (stat (w (clock s)) name, advance s)"

definition fsReadDirNames :: "world \<Rightarrow> path \<Rightarrow> state \<Rightarrow> (error + string list) \<times> state" where
  "fsReadDirNames w name s = (readDirNames (w (clock s)) name, advance s)"

definition getKernelVersion :: "world \<Rightarrow> state \<Rightarrow> (error + version) \<times> state" where
  "getKernelVersion w s = (kernelVersion (w (clock s)), advance (s\<lparr>probes := Suc (probes s)\<rparr>))"

text \<open>
  \<open>readFile\<close>: \<open>-1\<close> and the error when the file cannot be opened; otherwise what
  \<open>buf.ReadFrom\<close> returns, the bytes read being appended to the buffer.
\<close>

definition readFile :: "world \<Rightarrow> path \<Rightarrow> state \<Rightarrow> (int \<times> error option) \<times> state" where
  "readFile w filename s =
     (case openRead (w (clock s)) filename of
        OpenFails err \<Rightarrow> ((- 1, Some err), advance s)
      | ReadsTo bs err \<Rightarrow> ((int (length bs), err), advance (s\<lparr>buf := buf s @ bs\<rparr>)))"

subsection \<open>getNetNamespacePathSuffix\<close>

text \<open>
  The parameter \<open>lessThan38\<close> stands for \<open>v.LessThan(v38)\<close> of the version library,
  \<open>v38\<close> being the parsed version 3.8.
\<close>

definition getNetNamespacePathSuffix :: "(version \<Rightarrow> bool) \<Rightarrow> world \<Rightarrow> state \<Rightarrow> path \<times> state" where
  "getNetNamespacePathSuffix lessThan38 w s =
     (if netNamespacePathSuffix s \<noteq> [] then (netNamespacePathSuffix s, s)
      else case getKernelVersion w s of
        (Inl err, s1) \<Rightarrow> (post38Path, s1\<lparr>netNamespacePathSuffix := post38Path\<rparr>)
      | (Inr v, s1) \<Rightarrow>
          if lessThan38 v then (pre38Path, s1\<lparr>netNamespacePathSuffix := pre38Path\<rparr>)
          else (post38Path, s1\<lparr>netNamespacePathSuffix := post38Path\<rparr>))"

subsection \<open>readProcessConnections\<close>

text \<open>
  The loop over the members of the group; the pair carries \<open>errRead\<close> and \<open>errRead6\<close>
  of the previous iteration, which the code after the loop inspects.
\<close>

fun readLoop ::
  "world \<Rightarrow> process list \<Rightarrow> error option \<times> error option \<Rightarrow> state \<Rightarrow> (bool \<times> error option) \<times> state"
where
  "readLoop w [] (errRead, errRead6) s =
     (case errRead of
        Some e \<Rightarrow> ((False, Some e), s)
      | None \<Rightarrow> (case errRead6 of Some e6 \<Rightarrow> ((False, Some e6), s) | None \<Rightarrow> ((False, None), s)))"
| "readLoop w (p # ps) errs s =
     (let dirName = Itoa (sint (pPID p)) in
      case readFile w (Join [procRoot s, [dirName], [''net'', ''tcp'']]) s of
        ((read, errRead), s1) \<Rightarrow>
          (case readFile w (Join [procRoot s1, [dirName], [''net'', ''tcp6'']]) s1 of
             ((read6, errRead6), s2) \<Rightarrow>
               if errRead \<noteq> None \<or> errRead6 \<noteq> None then readLoop w ps (errRead, errRead6) s2
               else ((read + read6 > 0, None), s2)))"

definition readProcessConnections ::
  "world \<Rightarrow> process list \<Rightarrow> state \<Rightarrow> (bool \<times> error option) \<times> state"
where
  "readProcessConnections w namespaceProcs s =
     readLoop w namespaceProcs (None, None) (s\<lparr>tableReads := Suc (tableReads s)\<rparr>)"

subsection \<open>walkNamespacePid\<close>

text \<open>
  The inner loop over the descriptor names of one process. It carries the lazily created
  owner record \<open>proc\<close> and \<open>fdBlockCount\<close>.
\<close>

fun fdLoop ::
  "world \<Rightarrow> path \<Rightarrow> process \<Rightarrow> string list \<Rightarrow> Proc option \<times> int \<Rightarrow> state \<Rightarrow> (Proc option \<times> int) \<times> state"
where
  "fdLoop w fdBase p [] (proc, fdBlockCount) s = ((proc, fdBlockCount), s)"
| "fdLoop w fdBase p (fd # fds) (proc, fdBlockCount) s =
     (case fsStat w (Join [fdBase, [fd]]) (s\<lparr>examined := Suc (examined s)\<rparr>) of
        (Inl err, s1) \<Rightarrow> fdLoop w fdBase p fds (proc, fdBlockCount + 1) s1
      | (Inr statT, s1) \<Rightarrow>
          if Mode statT AND S_IFMT \<noteq> S_IFSOCK then fdLoop w fdBase p fds (proc, fdBlockCount + 1) s1
          else
            let proc' = (case proc of
                           None \<Rightarrow> \<lparr>PID = pPID p, Name = pName p\<rparr>
                         | Some pr \<Rightarrow> pr)
            in fdLoop w fdBase p fds (Some proc', fdBlockCount + 1)
                 (s1\<lparr>sockets := (sockets s1)(Ino statT \<mapsto> proc')\<rparr>))"

text \<open>
  The check at the head of the outer loop body: beyond the budget, wait for a tick,
  reset the count and read the tables again for the processes from the current one on.
  \<open>Inl\<close> is the early return of \<open>walkNamespacePid\<close>, \<open>Inr\<close> the count to go on with.
\<close>

definition rateLimit ::
  "world \<Rightarrow> int \<Rightarrow> process list \<Rightarrow> int \<Rightarrow> state \<Rightarrow> (error option + int) \<times> state"
where
  "rateLimit w fdBlockSize rest fdBlockCount s =
     (if fdBlockCount > fdBlockSize then
        case readProcessConnections w rest (rateLimitPause s) of
          ((found, err), s1) \<Rightarrow> if err \<noteq> None \<or> \<not> found then (Inl err, s1) else (Inr 0, s1)
      else (Inr fdBlockCount, s))"

text \<open>The outer loop; its list argument is \<open>namespaceProcs[i:]\<close>.\<close>

fun procLoop :: "world \<Rightarrow> int \<Rightarrow> process list \<Rightarrow> int \<Rightarrow> state \<Rightarrow> error option \<times> state" where
  "procLoop w fdBlockSize [] fdBlockCount s = (None, s)"
| "procLoop w fdBlockSize (p # ps) fdBlockCount s =
     (let fdBase = Join [procRoot s, [Itoa (sint (pPID p))], [''fd'']] in
      case rateLimit w fdBlockSize (p # ps) fdBlockCount s of
        (Inl err, s1) \<Rightarrow> (err, s1)
      | (Inr count1, s1) \<Rightarrow>
          (case fsReadDirNames w fdBase s1 of
             (Inl err, s2) \<Rightarrow> procLoop w fdBlockSize ps count1 s2
           | (Inr fds, s2) \<Rightarrow>
               (case fdLoop w fdBase p fds (None, count1) s2 of
                  ((proc, count2), s3) \<Rightarrow> procLoop w fdBlockSize ps count2 s3)))"

definition walkNamespacePid :: "world \<Rightarrow> process list \<Rightarrow> int \<Rightarrow> state \<Rightarrow> error option \<times> state" where
  "walkNamespacePid w namespaceProcs fdBlockSize s =
     (case readProcessConnections w namespaceProcs s of
        ((found, err), s1) \<Rightarrow>
          if err \<noteq> None \<or> \<not> found then (err, s1)
          else procLoop w fdBlockSize namespaceProcs 0 s1)"

subsection \<open>walkProcPid\<close>

text \<open>The callback given to the process walker: one process is added to its group.\<close>

definition addToNamespace ::
  "(version \<Rightarrow> bool) \<Rightarrow> world \<Rightarrow> process \<Rightarrow> (64 word \<rightharpoonup> process list) \<times> state \<Rightarrow>
   (64 word \<rightharpoonup> process list) \<times> state"
where
  "addToNamespace lessThan38 w p ns =
     (case ns of (namespaces, s) \<Rightarrow>
        let dirName = Itoa (sint (pPID p)) in
        case getNetNamespacePathSuffix lessThan38 w s of
          (nsSuffix, s1) \<Rightarrow>
            (case fsStat w (Join [procRoot s1, [dirName], nsSuffix]) s1 of
               (Inl err, s2) \<Rightarrow> (namespaces, s2)
             | (Inr statT, s2) \<Rightarrow>
                 (namespaces(Ino statT \<mapsto>
                    (case namespaces (Ino statT) of None \<Rightarrow> [] | Some procs \<Rightarrow> procs) @ [p]), s2)))"

text \<open>\<open>walker.Walk\<close> calls the callback for every process the walker enumerates.\<close>

fun groupByNamespace ::
  "(version \<Rightarrow> bool) \<Rightarrow> world \<Rightarrow> process list \<Rightarrow> (64 word \<rightharpoonup> process list) \<times> state \<Rightarrow>
   (64 word \<rightharpoonup> process list) \<times> state"
where
  "groupByNamespace lessThan38 w [] ns = ns"
| "groupByNamespace lessThan38 w (p # ps) ns =
     groupByNamespace lessThan38 w ps (addToNamespace lessThan38 w p ns)"

text \<open>
  Go does not fix the order in which \<open>range\<close> visits a map. The order of one run is the
  list \<open>order\<close> of the keys: every key of the map, once.
\<close>

definition rangeOrder :: "64 word list \<Rightarrow> (64 word \<rightharpoonup> process list) \<Rightarrow> bool" where
  "rangeOrder order namespaces \<longleftrightarrow> distinct order \<and> set order = dom namespaces"

definition rangeOver :: "(64 word \<rightharpoonup> process list) \<Rightarrow> 64 word list \<Rightarrow> process list list" where
  "rangeOver namespaces order = List.map_filter namespaces order"

text \<open>The loop over the groups: a tick, then the walk, whose error result is dropped.\<close>

fun nsLoop :: "world \<Rightarrow> int \<Rightarrow> process list list \<Rightarrow> state \<Rightarrow> state" where
  "nsLoop w fdBlockSize [] s = s"
| "nsLoop w fdBlockSize (procs # groups) s =
     nsLoop w fdBlockSize groups (snd (walkNamespacePid w procs fdBlockSize (recvTick s)))"

text \<open>
  \<open>walkProcPid\<close> returns the result map and the error; the model returns the final
  state as well. The gauge sent to the metrics sink is left out.
\<close>

definition walkProcPid ::
  "(version \<Rightarrow> bool) \<Rightarrow> world \<Rightarrow> process list \<Rightarrow> 64 word list \<Rightarrow> int \<Rightarrow> state \<Rightarrow>
   ((64 word \<rightharpoonup> Proc) \<times> error option) \<times> state"
where
  "walkProcPid lessThan38 w walker order fdBlockSize s =
     (case groupByNamespace lessThan38 w walker (Map.empty, s\<lparr>sockets := Map.empty\<rparr>) of
        (namespaces, s1) \<Rightarrow>
          let s2 = nsLoop w fdBlockSize (rangeOver namespaces order) s1
          in ((sockets s2, None), s2))"

subsection \<open>Auxiliary definitions for the statements\<close>

definition ownerOf :: "process \<Rightarrow> Proc" where
  "ownerOf p = \<lparr>PID = pPID p, Name = pName p\<rparr>"

definition fdDir :: "path \<Rightarrow> process \<Rightarrow> path" where
  "fdDir root p = Join [root, [Itoa (sint (pPID p))], [''fd'']]"

definition record_socket :: "stat_t \<Rightarrow> process \<Rightarrow> state \<Rightarrow> state" where
  "record_socket st p s =
     (advance (s\<lparr>examined := Suc (examined s)\<rparr>))\<lparr>sockets := (sockets s)(Ino st \<mapsto> ownerOf p)\<rparr>"

text \<open>One iteration of the outer loop: \<open>Inl\<close> the early return, \<open>Inr\<close> the next count.\<close>

definition procBody ::
  "world \<Rightarrow> int \<Rightarrow> process \<Rightarrow> process list \<Rightarrow> int \<Rightarrow> state \<Rightarrow> (error option + int) \<times> state"
where
  "procBody w K p ps c s =
     (let r = rateLimit w K (p # ps) c s; s1 = snd r in
      case fst r of
        Inl err \<Rightarrow> (Inl err, s1)
      | Inr c1 \<Rightarrow>
          (case readDirNames (w (clock s1)) (fdDir (procRoot s) p) of
             Inl err \<Rightarrow> (Inr c1, advance s1)
           | Inr fds \<Rightarrow>
               (Inr (c1 + int (length fds)),
                snd (fdLoop w (fdDir (procRoot s) p) p fds (None, c1) (advance s1)))))"

definition tcpFile :: "path \<Rightarrow> process \<Rightarrow> path" where
  "tcpFile root p = Join [root, [Itoa (sint (pPID p))], [''net'', ''tcp'']]"

definition tcp6File :: "path \<Rightarrow> process \<Rightarrow> path" where
  "tcp6File root p = Join [root, [Itoa (sint (pPID p))], [''net'', ''tcp6'']]"

text \<open>The error of a read, as \<open>readFile\<close> returns it.\<close>

definition readError :: "file_read \<Rightarrow> error option" where
  "readError r = (case r of OpenFails err \<Rightarrow> Some err | ReadsTo bs err \<Rightarrow> err)"




text \<open>Every member fails one of its two reads, whenever they are attempted.\<close>

definition allFail :: "world \<Rightarrow> path \<Rightarrow> process list \<Rightarrow> bool" where
  "allFail w root procs \<longleftrightarrow>
     (\<forall>t. \<forall>p \<in> set procs.
        readError (openRead (w t) (tcpFile root p)) \<noteq> None \<or>
        readError (openRead (w (Suc t)) (tcp6File root p)) \<noteq> None)"

text \<open>The error that the code after the loop picks from the pair of the last iteration.\<close>

definition lastError :: "world \<Rightarrow> path \<Rightarrow> process \<Rightarrow> nat \<Rightarrow> error option" where
  "lastError w root p t =
     (case readError (openRead (w t) (tcpFile root p)) of
        Some e \<Rightarrow> Some e
      | None \<Rightarrow> readError (openRead (w (Suc t)) (tcp6File root p)))"

text \<open>
  Every read of a member's table that succeeds gives no bytes, and some member can
  always be read.
\<close>

definition emptyTables :: "world \<Rightarrow> path \<Rightarrow> process list \<Rightarrow> bool" where
  "emptyTables w root procs \<longleftrightarrow>
     (\<forall>t. \<forall>p \<in> set procs. \<forall>bs.
        (openRead (w t) (tcpFile root p) = ReadsTo bs None \<longrightarrow> bs = []) \<and>
        (openRead (w t) (tcp6File root p) = ReadsTo bs None \<longrightarrow> bs = [])) \<and>
     (\<exists>p \<in> set procs. \<forall>t.
        readError (openRead (w t) (tcpFile root p)) = None \<and>
        readError (openRead (w t) (tcp6File root p)) = None)"

text \<open>The groups a scan visits, in the order of its \<open>range\<close>, and the state it visits them from.\<close>

definition scanStart :: "(version \<Rightarrow> bool) \<Rightarrow> world \<Rightarrow> process list \<Rightarrow> state \<Rightarrow> state" where
  "scanStart lessThan38 w walker s =
     snd (groupByNamespace lessThan38 w walker (Map.empty, s\<lparr>sockets := Map.empty\<rparr>))"

definition scanGroups ::
  "(version \<Rightarrow> bool) \<Rightarrow> world \<Rightarrow> process list \<Rightarrow> 64 word list \<Rightarrow> state \<Rightarrow> process list list"
where
  "scanGroups lessThan38 w walker order s =
     rangeOver (fst (groupByNamespace lessThan38 w walker (Map.empty, s\<lparr>sockets := Map.empty\<rparr>))) order"

text \<open>
  At some instants the descriptor directory of the process lists a name, and the stat of
  that entry gives a socket with the inode.
\<close>

definition socketSeen :: "world \<Rightarrow> path \<Rightarrow> process \<Rightarrow> 64 word \<Rightarrow> bool" where
  "socketSeen w root p ino \<longleftrightarrow>
     (\<exists>t fds fd t' st.
        readDirNames (w t) (fdDir root p) = Inr fds \<and> fd \<in> set fds \<and>
        stat (w t') (Join [fdDir root p, [fd]]) = Inr st \<and>
        Mode st AND S_IFMT = S_IFSOCK \<and> Ino st = ino)"

text \<open>
  At some instant both tables of some member of the group are read without error, one
  after the other, and give at least one byte.
\<close>

definition tableSeen :: "world \<Rightarrow> path \<Rightarrow> process list \<Rightarrow> bool" where
  "tableSeen w root procs \<longleftrightarrow>
     (\<exists>q \<in> set procs. \<exists>t bs bs6.
        openRead (w t) (tcpFile root q) = ReadsTo bs None \<and>
        openRead (w (Suc t)) (tcp6File root q) = ReadsTo bs6 None \<and>
        0 < length bs + length bs6)"

text \<open>
  The states \<open>s\<close> and \<open>s'\<close> have the same proc root, and the result map of \<open>s\<close> is
  that of \<open>s'\<close> laid over \<open>m\<close>.
\<close>

definition over :: "(64 word \<rightharpoonup> Proc) \<Rightarrow> state \<Rightarrow> state \<Rightarrow> bool" where
  "over m s s' \<longleftrightarrow> procRoot s = procRoot s' \<and> sockets s = m ++ sockets s'"

text \<open>The suffix that the resolver returns on a host that does not change.\<close>

definition effectiveSuffix :: "(version \<Rightarrow> bool) \<Rightarrow> snapshot \<Rightarrow> state \<Rightarrow> path" where
  "effectiveSuffix lessThan38 h s =
     (if netNamespacePathSuffix s \<noteq> [] then netNamespacePathSuffix s
      else case kernelVersion h of
        Inl err \<Rightarrow> post38Path
      | Inr v \<Rightarrow> if lessThan38 v then pre38Path else post38Path)"

text \<open>What the walk of one group adds to the result map on a host that does not change.\<close>

definition groupSockets :: "snapshot \<Rightarrow> path \<Rightarrow> int \<Rightarrow> process list \<Rightarrow> (64 word \<rightharpoonup> Proc)" where
  "groupSockets h root K procs =
     sockets (snd (walkNamespacePid (\<lambda>t. h) procs K (initState\<lparr>procRoot := root\<rparr>)))"

text \<open>No inode is seen as a socket of processes of two different groups.\<close>

definition groupsApart :: "world \<Rightarrow> path \<Rightarrow> process list list \<Rightarrow> bool" where
  "groupsApart w root groups \<longleftrightarrow>
     (\<forall>g1 \<in> set groups. \<forall>g2 \<in> set groups. g1 \<noteq> g2 \<longrightarrow>
        \<not> (\<exists>ino. (\<exists>p \<in> set g1. socketSeen w root p ino) \<and> (\<exists>q \<in> set g2. socketSeen w root q ino)))"




subsection \<open>Concrete hosts\<close>

definition enoent :: error where
  "enoent = Error ''no such file or directory''"

text \<open>A host snapshot given by its files, directories and stat results; all else is absent.\<close>

definition hostOf ::
  "(path \<times> file_read) list \<Rightarrow> (path \<times> string list) list \<Rightarrow> (path \<times> stat_t) list \<Rightarrow>
   error + version \<Rightarrow> snapshot"
where
  "hostOf files dirs stats kv =
     \<lparr>openRead = (\<lambda>name. case map_of files name of Some r \<Rightarrow> r | None \<Rightarrow> OpenFails enoent),
      readDirNames = (\<lambda>name. case map_of dirs name of Some l \<Rightarrow> Inr l | None \<Rightarrow> Inl enoent),
      stat = (\<lambda>name. case map_of stats name of Some st \<Rightarrow> Inr st | None \<Rightarrow> Inl enoent),
      kernelVersion = kv\<rparr>"

definition sock :: "64 word \<Rightarrow> stat_t" where
  "sock ino = \<lparr>Mode = 0xc1ff, Ino = ino\<rparr>"

definition regular :: "64 word \<Rightarrow> stat_t" where
  "regular ino = \<lparr>Mode = 0x81a4, Ino = ino\<rparr>"

definition procA :: process where
  "procA = \<lparr>pPID = 100, pName = ''A''\<rparr>"

definition procB :: process where
  "procB = \<lparr>pPID = 200, pName = ''B''\<rparr>"

text \<open>
  Five socket descriptors across two processes of namespace 555: three held by process
  100, two by process 200.
\<close>

definition fiveSockets :: world where
  "fiveSockets = (\<lambda>t. hostOf
     [([''proc'', ''100'', ''net'', ''tcp''], ReadsTo [1, 2] None),
      ([''proc'', ''100'', ''net'', ''tcp6''], ReadsTo [] None),
      ([''proc'', ''200'', ''net'', ''tcp''], ReadsTo [1, 2] None),
      ([''proc'', ''200'', ''net'', ''tcp6''], ReadsTo [] None)]
     [([''proc'', ''100'', ''fd''], [''3'', ''4'', ''5'']),
      ([''proc'', ''200'', ''fd''], [''3'', ''4''])]
     [([''proc'', ''100'', ''ns'', ''net''], regular 555),
      ([''proc'', ''200'', ''ns'', ''net''], regular 555),
      ([''proc'', ''100'', ''fd'', ''3''], sock 9001),
      ([''proc'', ''100'', ''fd'', ''4''], sock 9002),
      ([''proc'', ''100'', ''fd'', ''5''], sock 9003),
      ([''proc'', ''200'', ''fd'', ''3''], sock 9004),
      ([''proc'', ''200'', ''fd'', ''4''], sock 9005)]
     (Inr ''4.4.0''))"

text \<open>
  Process 100 has no connection tables; process 200 has a readable \<open>tcp\<close>, and its
  \<open>tcp6\<close> breaks off with an error.
\<close>

definition eio :: error where
  "eio = Error ''input/output error''"

definition tablesGone :: world where
  "tablesGone = (\<lambda>t. hostOf
     [([''proc'', ''200'', ''net'', ''tcp''], ReadsTo [1, 2] None),
      ([''proc'', ''200'', ''net'', ''tcp6''], ReadsTo [3] (Some eio))]
     [] [] (Inr ''4.4.0''))"

text \<open>A namespace with empty connection tables, whose processes hold socket descriptors.\<close>

definition idleNamespace :: world where
  "idleNamespace = (\<lambda>t. hostOf
     [([''proc'', ''100'', ''net'', ''tcp''], ReadsTo [] None),
      ([''proc'', ''100'', ''net'', ''tcp6''], ReadsTo [] None),
      ([''proc'', ''200'', ''net'', ''tcp''], ReadsTo [] None),
      ([''proc'', ''200'', ''net'', ''tcp6''], ReadsTo [] None)]
     [([''proc'', ''100'', ''fd''], [''3'']),
      ([''proc'', ''200'', ''fd''], [''3''])]
     [([''proc'', ''100'', ''ns'', ''net''], regular 555),
      ([''proc'', ''200'', ''ns'', ''net''], regular 555),
      ([''proc'', ''100'', ''fd'', ''3''], sock 9001),
      ([''proc'', ''200'', ''fd'', ''3''], sock 9002)]
     (Inr ''4.4.0''))"

text \<open>A version library for which no kernel is older than 3.8.\<close>

definition modernKernel :: "version \<Rightarrow> bool" where
  "modernKernel v = False"

text \<open>
  Two namespaces of one process each; both processes hold a descriptor of socket 9999.
\<close>

definition twoNamespaces :: world where
  "twoNamespaces = (\<lambda>t. hostOf
     [([''proc'', ''100'', ''net'', ''tcp''], ReadsTo [1, 2] None),
      ([''proc'', ''100'', ''net'', ''tcp6''], ReadsTo [] None),
      ([''proc'', ''200'', ''net'', ''tcp''], ReadsTo [3, 4] None),
      ([''proc'', ''200'', ''net'', ''tcp6''], ReadsTo [] None)]
     [([''proc'', ''100'', ''fd''], [''3'']),
      ([''proc'', ''200'', ''fd''], [''3''])]
     [([''proc'', ''100'', ''ns'', ''net''], regular 555),
      ([''proc'', ''200'', ''ns'', ''net''], regular 777),
      ([''proc'', ''100'', ''fd'', ''3''], sock 9999),
      ([''proc'', ''200'', ''fd'', ''3''], sock 9999)]
     (Inr ''4.4.0''))"

text \<open>
  Process 100 has readable tables and three socket descriptors; process 200 has a socket
  descriptor, and its tables cannot be opened.
\<close>

definition secondUnreadable :: world where
  "secondUnreadable = (\<lambda>t. hostOf
     [([''proc'', ''100'', ''net'', ''tcp''], ReadsTo [1, 2] None),
      ([''proc'', ''100'', ''net'', ''tcp6''], ReadsTo [] None)]
     [([''proc'', ''100'', ''fd''], [''3'', ''4'', ''5'']),
      ([''proc'', ''200'', ''fd''], [''3''])]
     [([''proc'', ''100'', ''ns'', ''net''], regular 555),
      ([''proc'', ''200'', ''ns'', ''net''], regular 555),
      ([''proc'', ''100'', ''fd'', ''3''], sock 9001),
      ([''proc'', ''100'', ''fd'', ''4''], sock 9002),
      ([''proc'', ''100'', ''fd'', ''5''], sock 9003),
      ([''proc'', ''200'', ''fd'', ''3''], sock 9004)]
     (Inr ''4.4.0''))"


text \<open>A host with a kernel older than 3.8, and a version library that says so.\<close>

definition oldKernel :: "version \<Rightarrow> bool" where
  "oldKernel v \<longleftrightarrow> v = ''3.2.0''"

definition oldHost :: world where
  "oldHost = (\<lambda>t. hostOf [] [] [] (Inr ''3.2.0''))"

text \<open>The scenario of two processes in namespace 555: only process 200 holds a socket.\<close>

definition scenarioAB :: world where
  "scenarioAB = (\<lambda>t. hostOf
     [([''proc'', ''100'', ''net'', ''tcp''], ReadsTo [7] None),
      ([''proc'', ''100'', ''net'', ''tcp6''], ReadsTo [] None),
      ([''proc'', ''200'', ''net'', ''tcp''], ReadsTo [7] None),
      ([''proc'', ''200'', ''net'', ''tcp6''], ReadsTo [] None)]
     [([''proc'', ''100'', ''fd''], [''0'']),
      ([''proc'', ''200'', ''fd''], [''3''])]
     [([''proc'', ''100'', ''ns'', ''net''], regular 555),
      ([''proc'', ''200'', ''ns'', ''net''], regular 555),
      ([''proc'', ''100'', ''fd'', ''0''], regular 4242),
      ([''proc'', ''200'', ''fd'', ''3''], sock 9999)]
     (Inr ''4.4.0''))"

text \<open>Two namespaces of one process each, with one socket each.\<close>

definition apartHost :: snapshot where
  "apartHost = hostOf
     [([''proc'', ''100'', ''net'', ''tcp''], ReadsTo [1, 2] None),
      ([''proc'', ''100'', ''net'', ''tcp6''], ReadsTo [] None),
      ([''proc'', ''200'', ''net'', ''tcp''], ReadsTo [3, 4] None),
      ([''proc'', ''200'', ''net'', ''tcp6''], ReadsTo [] None)]
     [([''proc'', ''100'', ''fd''], [''3'']),
      ([''proc'', ''200'', ''fd''], [''3''])]
     [([''proc'', ''100'', ''ns'', ''net''], regular 555),
      ([''proc'', ''200'', ''ns'', ''net''], regular 777),
      ([''proc'', ''100'', ''fd'', ''3''], sock 9001),
      ([''proc'', ''200'', ''fd'', ''3''], sock 9002)]
     (Inr ''4.4.0'')"

section \<open>Frame lemmas\<close>

lemma advance_fields [simp]:
  "procRoot (advance s) = procRoot s"
  "netNamespacePathSuffix (advance s) = netNamespacePathSuffix s"
  "buf (advance s) = buf s"
  "sockets (advance s) = sockets s"
  "clock (advance s) = Suc (clock s)"
  "ticks (advance s) = ticks s"
  "pauses (advance s) = pauses s"
  "probes (advance s) = probes s"
  "tableReads (advance s) = tableReads s"
  "examined (advance s) = examined s"
  by (simp_all add: advance_def)

lemma recvTick_fields [simp]:
  "procRoot (recvTick s) = procRoot s"
  "netNamespacePathSuffix (recvTick s) = netNamespacePathSuffix s"
  "buf (recvTick s) = buf s"
  "sockets (recvTick s) = sockets s"
  "clock (recvTick s) = Suc (clock s)"
  "ticks (recvTick s) = Suc (ticks s)"
  "pauses (recvTick s) = pauses s"
  "probes (recvTick s) = probes s"
  "tableReads (recvTick s) = tableReads s"
  "examined (recvTick s) = examined s"
  by (simp_all add: recvTick_def)

lemma rateLimitPause_fields [simp]:
  "procRoot (rateLimitPause s) = procRoot s"
  "netNamespacePathSuffix (rateLimitPause s) = netNamespacePathSuffix s"
  "buf (rateLimitPause s) = buf s"
  "sockets (rateLimitPause s) = sockets s"
  "clock (rateLimitPause s) = Suc (clock s)"
  "ticks (rateLimitPause s) = Suc (ticks s)"
  "pauses (rateLimitPause s) = Suc (pauses s)"
  "probes (rateLimitPause s) = probes s"
  "tableReads (rateLimitPause s) = tableReads s"
  "examined (rateLimitPause s) = examined s"
  by (simp_all add: rateLimitPause_def)

lemma readFile_fields [simp]:
  "procRoot (snd (readFile w f s)) = procRoot s"
  "netNamespacePathSuffix (snd (readFile w f s)) = netNamespacePathSuffix s"
  "sockets (snd (readFile w f s)) = sockets s"
  "clock (snd (readFile w f s)) = Suc (clock s)"
  "ticks (snd (readFile w f s)) = ticks s"
  "pauses (snd (readFile w f s)) = pauses s"
  "probes (snd (readFile w f s)) = probes s"
  "tableReads (snd (readFile w f s)) = tableReads s"
  "examined (snd (readFile w f s)) = examined s"
  by (simp_all add: readFile_def split: file_read.splits)

lemma readFile_buf: "prefix (buf s) (buf (snd (readFile w f s)))"
  by (simp add: readFile_def split: file_read.splits)

lemma readLoop_fields:
  "procRoot (snd (readLoop w ps errs s)) = procRoot s \<and>
   netNamespacePathSuffix (snd (readLoop w ps errs s)) = netNamespacePathSuffix s \<and>
   sockets (snd (readLoop w ps errs s)) = sockets s \<and>
   ticks (snd (readLoop w ps errs s)) = ticks s \<and>
   pauses (snd (readLoop w ps errs s)) = pauses s \<and>
   probes (snd (readLoop w ps errs s)) = probes s \<and>
   tableReads (snd (readLoop w ps errs s)) = tableReads s \<and>
   examined (snd (readLoop w ps errs s)) = examined s \<and>
   prefix (buf s) (buf (snd (readLoop w ps errs s)))"
proof (induction ps arbitrary: errs s)
  case Nil
  show ?case by (cases errs) (simp split: option.splits)
next
  case (Cons p ps)
  let ?d = "Itoa (sint (pPID p))"
  obtain r1 s1 where r1: "readFile w (Join [procRoot s, [?d], [''net'', ''tcp'']]) s = (r1, s1)"
    by (cases "readFile w (Join [procRoot s, [?d], [''net'', ''tcp'']]) s")
  obtain r2 s2 where r2: "readFile w (Join [procRoot s1, [?d], [''net'', ''tcp6'']]) s1 = (r2, s2)"
    by (cases "readFile w (Join [procRoot s1, [?d], [''net'', ''tcp6'']]) s1")
  have s1: "s1 = snd (readFile w (Join [procRoot s, [?d], [''net'', ''tcp'']]) s)" using r1 by simp
  have s2: "s2 = snd (readFile w (Join [procRoot s1, [?d], [''net'', ''tcp6'']]) s1)" using r2 by simp
  have b: "prefix (buf s) (buf s2)"
    unfolding s1 s2 by (meson readFile_buf prefix_order.order_trans)
  have f: "procRoot s2 = procRoot s" "netNamespacePathSuffix s2 = netNamespacePathSuffix s"
    "sockets s2 = sockets s" "ticks s2 = ticks s" "pauses s2 = pauses s" "probes s2 = probes s"
    "tableReads s2 = tableReads s" "examined s2 = examined s"
    unfolding s1 s2 by simp_all
  show ?case
  proof (cases "snd r1 \<noteq> None \<or> snd r2 \<noteq> None")
    case True
    then have "readLoop w (p # ps) errs s = readLoop w ps (snd r1, snd r2) s2"
      using r1 r2 by (cases r1; cases r2) (auto simp: Let_def)
    then show ?thesis using Cons.IH [of "(snd r1, snd r2)" s2] f b
      by (auto intro: prefix_order.order_trans)
  next
    case False
    then have "snd (readLoop w (p # ps) errs s) = s2"
      using r1 r2 by (cases r1; cases r2) (auto simp: Let_def)
    then show ?thesis using f b by simp
  qed
qed


lemma fdLoop_fields:
  "procRoot (snd (fdLoop w b p fds pc s)) = procRoot s \<and>
   netNamespacePathSuffix (snd (fdLoop w b p fds pc s)) = netNamespacePathSuffix s \<and>
   buf (snd (fdLoop w b p fds pc s)) = buf s \<and>
   clock (snd (fdLoop w b p fds pc s)) = clock s + length fds \<and>
   ticks (snd (fdLoop w b p fds pc s)) = ticks s \<and>
   pauses (snd (fdLoop w b p fds pc s)) = pauses s \<and>
   probes (snd (fdLoop w b p fds pc s)) = probes s \<and>
   tableReads (snd (fdLoop w b p fds pc s)) = tableReads s \<and>
   examined (snd (fdLoop w b p fds pc s)) = examined s + length fds \<and>
   snd (fst (fdLoop w b p fds pc s)) = snd pc + int (length fds)"
proof (induction fds arbitrary: pc s)
  case Nil
  show ?case by (cases pc) simp
next
  case (Cons fd fds)
  obtain proc c where pc: "pc = (proc, c)" by (cases pc)
  show ?case unfolding pc
    by (simp add: fsStat_def Let_def Cons.IH split: sum.splits)
qed


lemma fdLoop_skip:
  assumes "\<And>st. stat (w (clock s)) (Join [b, [fd]]) = Inr st \<Longrightarrow> Mode st AND S_IFMT \<noteq> S_IFSOCK"
  shows "fdLoop w b p (fd # fds) (proc, c) s =
         fdLoop w b p fds (proc, c + 1) (advance (s\<lparr>examined := Suc (examined s)\<rparr>))"
  using assms by (simp add: fsStat_def split: sum.splits)

lemma fdLoop_socket:
  assumes "stat (w (clock s)) (Join [b, [fd]]) = Inr st" and "Mode st AND S_IFMT = S_IFSOCK"
    and "proc = None \<or> proc = Some (ownerOf p)"
  shows "fdLoop w b p (fd # fds) (proc, c) s =
         fdLoop w b p fds (Some (ownerOf p), c + 1) (record_socket st p s)"
  using assms by (auto simp: fsStat_def ownerOf_def Let_def record_socket_def)

lemma fdLoop_sockets:
  assumes "sockets (snd (fdLoop w b p fds (proc, c) s)) ino = Some pr"
    and "proc = None \<or> proc = Some (ownerOf p)"
  shows "sockets s ino = Some pr \<or>
    (pr = ownerOf p \<and> (\<exists>fd \<in> set fds. \<exists>t st. stat (w t) (Join [b, [fd]]) = Inr st \<and>
        Mode st AND S_IFMT = S_IFSOCK \<and> Ino st = ino))"
  using assms
proof (induction fds arbitrary: proc c s)
  case Nil
  then show ?case by simp
next
  case (Cons fd fds)
  show ?case
  proof (cases "\<exists>st. stat (w (clock s)) (Join [b, [fd]]) = Inr st \<and> Mode st AND S_IFMT = S_IFSOCK")
    case False
    then have "fdLoop w b p (fd # fds) (proc, c) s =
       fdLoop w b p fds (proc, c + 1) (advance (s\<lparr>examined := Suc (examined s)\<rparr>))"
      by (intro fdLoop_skip) auto
    with Cons.prems Cons.IH [of proc "c + 1" "advance (s\<lparr>examined := Suc (examined s)\<rparr>)"]
    have "sockets (advance (s\<lparr>examined := Suc (examined s)\<rparr>)) ino = Some pr \<or>
        (pr = ownerOf p \<and> (\<exists>fd \<in> set fds. \<exists>t st. stat (w t) (Join [b, [fd]]) = Inr st \<and>
        Mode st AND S_IFMT = S_IFSOCK \<and> Ino st = ino))" by (simp del: fdLoop.simps)
    then show ?thesis by (simp del: fdLoop.simps) blast
  next
    case True
    then obtain st where st: "stat (w (clock s)) (Join [b, [fd]]) = Inr st"
      "Mode st AND S_IFMT = S_IFSOCK" by blast
    let ?s1 = "record_socket st p s"
    have eq: "fdLoop w b p (fd # fds) (proc, c) s = fdLoop w b p fds (Some (ownerOf p), c + 1) ?s1"
      using st Cons.prems(2) by (rule fdLoop_socket)
    from Cons.IH [of "Some (ownerOf p)" "c + 1" ?s1] Cons.prems(1)
    have "sockets ?s1 ino = Some pr \<or>
        (pr = ownerOf p \<and> (\<exists>fd \<in> set fds. \<exists>t st. stat (w t) (Join [b, [fd]]) = Inr st \<and>
        Mode st AND S_IFMT = S_IFSOCK \<and> Ino st = ino))" unfolding eq by simp
    then show ?thesis
    proof
      assume "sockets ?s1 ino = Some pr"
      then have "sockets s ino = Some pr \<or> (ino = Ino st \<and> pr = ownerOf p)"
        by (auto simp: record_socket_def split: if_splits)
      then show ?thesis using st by auto
    next
      assume "pr = ownerOf p \<and> (\<exists>fd \<in> set fds. \<exists>t st. stat (w t) (Join [b, [fd]]) = Inr st \<and>
        Mode st AND S_IFMT = S_IFSOCK \<and> Ino st = ino)"
      then show ?thesis by auto
    qed
  qed
qed



lemma readLoop_frame [simp]:
  "procRoot (snd (readLoop w ps errs s)) = procRoot s"
  "netNamespacePathSuffix (snd (readLoop w ps errs s)) = netNamespacePathSuffix s"
  "sockets (snd (readLoop w ps errs s)) = sockets s"
  "ticks (snd (readLoop w ps errs s)) = ticks s"
  "pauses (snd (readLoop w ps errs s)) = pauses s"
  "probes (snd (readLoop w ps errs s)) = probes s"
  "tableReads (snd (readLoop w ps errs s)) = tableReads s"
  "examined (snd (readLoop w ps errs s)) = examined s"
  using readLoop_fields [of w ps errs s] by simp_all

lemma readProcessConnections_frame [simp]:
  "procRoot (snd (readProcessConnections w ps s)) = procRoot s"
  "netNamespacePathSuffix (snd (readProcessConnections w ps s)) = netNamespacePathSuffix s"
  "sockets (snd (readProcessConnections w ps s)) = sockets s"
  "ticks (snd (readProcessConnections w ps s)) = ticks s"
  "pauses (snd (readProcessConnections w ps s)) = pauses s"
  "probes (snd (readProcessConnections w ps s)) = probes s"
  "tableReads (snd (readProcessConnections w ps s)) = Suc (tableReads s)"
  "examined (snd (readProcessConnections w ps s)) = examined s"
  by (simp_all add: readProcessConnections_def)


lemma fdLoop_frame [simp]:
  "procRoot (snd (fdLoop w b p fds pc s)) = procRoot s"
  "netNamespacePathSuffix (snd (fdLoop w b p fds pc s)) = netNamespacePathSuffix s"
  "buf (snd (fdLoop w b p fds pc s)) = buf s"
  "ticks (snd (fdLoop w b p fds pc s)) = ticks s"
  "pauses (snd (fdLoop w b p fds pc s)) = pauses s"
  "probes (snd (fdLoop w b p fds pc s)) = probes s"
  "tableReads (snd (fdLoop w b p fds pc s)) = tableReads s"
  "examined (snd (fdLoop w b p fds pc s)) = examined s + length fds"
  "snd (fst (fdLoop w b p fds pc s)) = snd pc + int (length fds)"
  using fdLoop_fields [of w b p fds pc s] by simp_all

lemma fdLoop_result:
  "fdLoop w b p fds (proc, c) s = ((proc', c'), s') \<Longrightarrow>
     c' = c + int (length fds) \<and> s' = snd (fdLoop w b p fds (proc, c) s)"
  using fdLoop_fields [of w b p fds "(proc, c)" s] by simp

lemma procLoop_Cons:
  "procLoop w K (p # ps) c s =
     (case procBody w K p ps c s of
        (Inl err, s') \<Rightarrow> (err, s')
      | (Inr c', s') \<Rightarrow> procLoop w K ps c' s')"
  by (auto simp: procBody_def fdDir_def fsReadDirNames_def Let_def
      split: prod.splits sum.splits dest!: fdLoop_result)

lemma rateLimit_within: "c \<le> K \<Longrightarrow> rateLimit w K rest c s = (Inr c, s)"
  by (simp add: rateLimit_def)

lemma rateLimit_beyond:
  "K < c \<Longrightarrow> rateLimit w K rest c s =
     (let r = readProcessConnections w rest (rateLimitPause s) in
      if snd (fst r) \<noteq> None \<or> \<not> fst (fst r) then (Inl (snd (fst r)), snd r) else (Inr 0, snd r))"
  by (simp add: rateLimit_def Let_def split: prod.splits)

lemma rateLimit_frame [simp]:
  "procRoot (snd (rateLimit w K rest c s)) = procRoot s"
  "netNamespacePathSuffix (snd (rateLimit w K rest c s)) = netNamespacePathSuffix s"
  "sockets (snd (rateLimit w K rest c s)) = sockets s"
  "probes (snd (rateLimit w K rest c s)) = probes s"
  "examined (snd (rateLimit w K rest c s)) = examined s"
  by (cases "K < c"; simp add: rateLimit_within rateLimit_beyond Let_def)+


lemma rateLimit_counts:
  "(c \<le> K \<and> ticks (snd (rateLimit w K rest c s)) = ticks s \<and>
      pauses (snd (rateLimit w K rest c s)) = pauses s \<and>
      tableReads (snd (rateLimit w K rest c s)) = tableReads s \<and>
      fst (rateLimit w K rest c s) = Inr c) \<or>
   (K < c \<and> ticks (snd (rateLimit w K rest c s)) = Suc (ticks s) \<and>
      pauses (snd (rateLimit w K rest c s)) = Suc (pauses s) \<and>
      tableReads (snd (rateLimit w K rest c s)) = Suc (tableReads s) \<and>
      (\<forall>c'. fst (rateLimit w K rest c s) = Inr c' \<longrightarrow> c' = 0))"
  by (cases "K < c") (simp_all add: rateLimit_within rateLimit_beyond Let_def)



lemma procBody_frame [simp]:
  "procRoot (snd (procBody w K p ps c s)) = procRoot s"
  "netNamespacePathSuffix (snd (procBody w K p ps c s)) = netNamespacePathSuffix s"
  "probes (snd (procBody w K p ps c s)) = probes s"
  by (simp_all add: procBody_def Let_def split: sum.splits)



lemma procBody_reads:
  "tableReads (snd (procBody w K p ps c s)) + pauses s = tableReads s + pauses (snd (procBody w K p ps c s)) \<and>
   ticks (snd (procBody w K p ps c s)) + pauses s = ticks s + pauses (snd (procBody w K p ps c s))"
  using rateLimit_counts [of c K w "p # ps" s]
  by (auto simp: procBody_def Let_def split: sum.splits)


text \<open>The budget: what one iteration adds to the counters.\<close>

lemma procBody_budget:
  assumes D: "\<forall>t fds. readDirNames (w t) (fdDir (procRoot s) p) = Inr fds \<longrightarrow> length fds \<le> D"
  shows "(\<exists>e. e \<le> D \<and> c \<le> K \<and> procBody w K p ps c s = (Inr (c + int e), snd (procBody w K p ps c s)) \<and>
            ticks (snd (procBody w K p ps c s)) = ticks s \<and>
            examined (snd (procBody w K p ps c s)) = examined s + e) \<or>
         (\<exists>e. e \<le> D \<and> K < c \<and> procBody w K p ps c s = (Inr (int e), snd (procBody w K p ps c s)) \<and>
            ticks (snd (procBody w K p ps c s)) = Suc (ticks s) \<and>
            examined (snd (procBody w K p ps c s)) = examined s + e) \<or>
         (K < c \<and> (\<exists>err. procBody w K p ps c s = (Inl err, snd (procBody w K p ps c s))) \<and>
            ticks (snd (procBody w K p ps c s)) = Suc (ticks s) \<and>
            examined (snd (procBody w K p ps c s)) = examined s)"
proof (cases "K < c")
  case False
  then have rl: "rateLimit w K (p # ps) c s = (Inr c, s)" by (simp add: rateLimit_within)
  show ?thesis
  proof (cases "readDirNames (w (clock s)) (fdDir (procRoot s) p)")
    case (Inl e)
    with rl False show ?thesis by (auto simp: procBody_def)
  next
    case (Inr fds)
    with D have "length fds \<le> D" by blast
    with rl False Inr show ?thesis by (auto simp: procBody_def)
  qed
next
  case True
  let ?r = "readProcessConnections w (p # ps) (rateLimitPause s)"
  show ?thesis
  proof (cases "snd (fst ?r) \<noteq> None \<or> \<not> fst (fst ?r)")
    case stop: True
    with True show ?thesis by (auto simp: procBody_def rateLimit_beyond Let_def)
  next
    case go: False
    then have rl: "rateLimit w K (p # ps) c s = (Inr 0, snd ?r)"
      using True by (simp add: rateLimit_beyond Let_def)
    show ?thesis
    proof (cases "readDirNames (w (clock (snd ?r))) (fdDir (procRoot s) p)")
      case (Inl e)
      with rl True show ?thesis by (auto simp: procBody_def)
    next
      case (Inr fds)
      with D have "length fds \<le> D" by blast
      with rl True Inr show ?thesis by (auto simp: procBody_def)
    qed
  qed
qed



text \<open>A reflexive and transitive relation that one iteration keeps is kept by the loop.\<close>

lemma procLoop_rel:
  assumes refl: "\<And>s. R s s"
    and trans: "\<And>s1 s2 s3. R s1 s2 \<Longrightarrow> R s2 s3 \<Longrightarrow> R s1 s3"
    and body: "\<And>p ps c s. R s (snd (procBody w K p ps c s))"
  shows "R s (snd (procLoop w K ps c s))"
proof (induction ps arbitrary: c s)
  case Nil
  show ?case by (simp add: refl)
next
  case (Cons p ps)
  obtain r s1 where b: "procBody w K p ps c s = (r, s1)" by (cases "procBody w K p ps c s")
  have R1: "R s s1" using body [of s p ps c] b by simp
  show ?case
  proof (cases r)
    case (Inl err)
    then show ?thesis using R1 b by (simp add: procLoop_Cons del: procLoop.simps)
  next
    case (Inr c')
    then have "procLoop w K (p # ps) c s = procLoop w K ps c' s1"
      using b by (simp add: procLoop_Cons del: procLoop.simps)
    then show ?thesis using trans [OF R1 Cons.IH [of s1 c']] by simp
  qed
qed

lemma procLoop_frame [simp]:
  "procRoot (snd (procLoop w K ps c s)) = procRoot s"
  "netNamespacePathSuffix (snd (procLoop w K ps c s)) = netNamespacePathSuffix s"
  "probes (snd (procLoop w K ps c s)) = probes s"
proof -
  have "procRoot s = procRoot (snd (procLoop w K ps c s)) \<and>
        netNamespacePathSuffix s = netNamespacePathSuffix (snd (procLoop w K ps c s)) \<and>
        probes s = probes (snd (procLoop w K ps c s))"
    by (rule procLoop_rel) simp_all
  then show "procRoot (snd (procLoop w K ps c s)) = procRoot s"
  "netNamespacePathSuffix (snd (procLoop w K ps c s)) = netNamespacePathSuffix s"
  "probes (snd (procLoop w K ps c s)) = probes s" by simp_all
qed



lemma procLoop_reads:
  "tableReads (snd (procLoop w K ps c s)) + pauses s = tableReads s + pauses (snd (procLoop w K ps c s)) \<and>
   ticks (snd (procLoop w K ps c s)) + pauses s = ticks s + pauses (snd (procLoop w K ps c s))"
  by (rule procLoop_rel [where R = "\<lambda>s s'. tableReads s' + pauses s = tableReads s + pauses s' \<and>
        ticks s' + pauses s = ticks s + pauses s'"])
     (auto simp: procBody_reads)

lemma walkNamespacePid_cases:
  "walkNamespacePid w procs K s =
     (let r = readProcessConnections w procs s in
      if snd (fst r) \<noteq> None \<or> \<not> fst (fst r) then (snd (fst r), snd r)
      else procLoop w K procs 0 (snd r))"
  by (simp add: walkNamespacePid_def Let_def split: prod.splits)

lemma walkProcPid_scan:
  "walkProcPid lessThan38 w walker order K s =
     ((sockets (nsLoop w K (scanGroups lessThan38 w walker order s) (scanStart lessThan38 w walker s)), None),
      nsLoop w K (scanGroups lessThan38 w walker order s) (scanStart lessThan38 w walker s))"
  by (simp add: walkProcPid_def scanGroups_def scanStart_def Let_def split: prod.splits)

lemma walkNamespacePid_frame [simp]:
  "procRoot (snd (walkNamespacePid w procs K s)) = procRoot s"
  "netNamespacePathSuffix (snd (walkNamespacePid w procs K s)) = netNamespacePathSuffix s"
  "probes (snd (walkNamespacePid w procs K s)) = probes s"
  by (simp_all add: walkNamespacePid_cases Let_def)



lemma walkNamespacePid_reads:
  "tableReads (snd (walkNamespacePid w procs K s)) + pauses s =
     Suc (tableReads s) + pauses (snd (walkNamespacePid w procs K s)) \<and>
   ticks (snd (walkNamespacePid w procs K s)) + pauses s =
     ticks s + pauses (snd (walkNamespacePid w procs K s))"
  using procLoop_reads [of w K procs 0 "snd (readProcessConnections w procs s)"]
  by (auto simp: walkNamespacePid_cases Let_def)


lemma nsLoop_rel:
  assumes refl: "\<And>s. R s s"
    and trans: "\<And>s1 s2 s3. R s1 s2 \<Longrightarrow> R s2 s3 \<Longrightarrow> R s1 s3"
    and step: "\<And>procs s. R s (snd (walkNamespacePid w procs K (recvTick s)))"
  shows "R s (nsLoop w K groups s)"
proof (induction groups arbitrary: s)
  case Nil
  show ?case by (simp add: refl)
next
  case (Cons g groups)
  show ?case using trans [OF step [of s g] Cons.IH] by simp
qed

lemma nsLoop_frame [simp]:
  "procRoot (nsLoop w K groups s) = procRoot s"
  "netNamespacePathSuffix (nsLoop w K groups s) = netNamespacePathSuffix s"
  "probes (nsLoop w K groups s) = probes s"
proof -
  have "procRoot s = procRoot (nsLoop w K groups s) \<and>
        netNamespacePathSuffix s = netNamespacePathSuffix (nsLoop w K groups s) \<and>
        probes s = probes (nsLoop w K groups s)"
    by (rule nsLoop_rel) simp_all
  then show "procRoot (nsLoop w K groups s) = procRoot s"
    "netNamespacePathSuffix (nsLoop w K groups s) = netNamespacePathSuffix s"
    "probes (nsLoop w K groups s) = probes s" by simp_all
qed



lemma nsLoop_reads:
  "tableReads (nsLoop w K groups s) + pauses s =
     tableReads s + length groups + pauses (nsLoop w K groups s)"
proof (induction groups arbitrary: s)
  case Nil
  show ?case by simp
next
  case (Cons g groups)
  let ?s1 = "snd (walkNamespacePid w g K (recvTick s))"
  have "tableReads ?s1 + pauses s = Suc (tableReads s) + pauses ?s1"
    using walkNamespacePid_reads [of w g K "recvTick s"] by simp
  with Cons.IH [of ?s1] show ?case by simp
qed

lemma getNetNamespacePathSuffix_frame [simp]:
  "procRoot (snd (getNetNamespacePathSuffix lt w s)) = procRoot s"
  "buf (snd (getNetNamespacePathSuffix lt w s)) = buf s"
  "sockets (snd (getNetNamespacePathSuffix lt w s)) = sockets s"
  "ticks (snd (getNetNamespacePathSuffix lt w s)) = ticks s"
  "pauses (snd (getNetNamespacePathSuffix lt w s)) = pauses s"
  "tableReads (snd (getNetNamespacePathSuffix lt w s)) = tableReads s"
  "examined (snd (getNetNamespacePathSuffix lt w s)) = examined s"
  by (simp_all add: getNetNamespacePathSuffix_def getKernelVersion_def split: sum.splits)

lemma addToNamespace_frame [simp]:
  "procRoot (snd (addToNamespace lt w p (ns, s))) = procRoot s"
  "buf (snd (addToNamespace lt w p (ns, s))) = buf s"
  "sockets (snd (addToNamespace lt w p (ns, s))) = sockets s"
  "ticks (snd (addToNamespace lt w p (ns, s))) = ticks s"
  "pauses (snd (addToNamespace lt w p (ns, s))) = pauses s"
  "tableReads (snd (addToNamespace lt w p (ns, s))) = tableReads s"
  "examined (snd (addToNamespace lt w p (ns, s))) = examined s"
proof -
  obtain sfx s1 where g: "getNetNamespacePathSuffix lt w s = (sfx, s1)" by (metis surj_pair)
  have f: "procRoot s1 = procRoot s" "buf s1 = buf s" "sockets s1 = sockets s" "ticks s1 = ticks s"
    "pauses s1 = pauses s" "tableReads s1 = tableReads s" "examined s1 = examined s"
    using getNetNamespacePathSuffix_frame [of lt w s] unfolding g by simp_all
  show "procRoot (snd (addToNamespace lt w p (ns, s))) = procRoot s"
  "buf (snd (addToNamespace lt w p (ns, s))) = buf s"
  "sockets (snd (addToNamespace lt w p (ns, s))) = sockets s"
  "ticks (snd (addToNamespace lt w p (ns, s))) = ticks s"
  "pauses (snd (addToNamespace lt w p (ns, s))) = pauses s"
  "tableReads (snd (addToNamespace lt w p (ns, s))) = tableReads s"
  "examined (snd (addToNamespace lt w p (ns, s))) = examined s"
    by (simp_all add: addToNamespace_def g fsStat_def Let_def f split: sum.splits)
qed

lemma groupByNamespace_frame [simp]:
  "procRoot (snd (groupByNamespace lt w ps nss)) = procRoot (snd nss)"
  "buf (snd (groupByNamespace lt w ps nss)) = buf (snd nss)"
  "sockets (snd (groupByNamespace lt w ps nss)) = sockets (snd nss)"
  "ticks (snd (groupByNamespace lt w ps nss)) = ticks (snd nss)"
  "pauses (snd (groupByNamespace lt w ps nss)) = pauses (snd nss)"
  "tableReads (snd (groupByNamespace lt w ps nss)) = tableReads (snd nss)"
  "examined (snd (groupByNamespace lt w ps nss)) = examined (snd nss)"
proof -
  have "procRoot (snd (groupByNamespace lt w ps nss)) = procRoot (snd nss) \<and>
  buf (snd (groupByNamespace lt w ps nss)) = buf (snd nss) \<and>
  sockets (snd (groupByNamespace lt w ps nss)) = sockets (snd nss) \<and>
  ticks (snd (groupByNamespace lt w ps nss)) = ticks (snd nss) \<and>
  pauses (snd (groupByNamespace lt w ps nss)) = pauses (snd nss) \<and>
  tableReads (snd (groupByNamespace lt w ps nss)) = tableReads (snd nss) \<and>
  examined (snd (groupByNamespace lt w ps nss)) = examined (snd nss)"
  proof (induction ps arbitrary: nss)
    case Nil
    show ?case by simp
  next
    case (Cons p ps)
    obtain ns s where nss: "nss = (ns, s)" by (cases nss)
    show ?case using Cons.IH [of "addToNamespace lt w p (ns, s)"] by (simp add: nss)
  qed
  then show "procRoot (snd (groupByNamespace lt w ps nss)) = procRoot (snd nss)"
  "buf (snd (groupByNamespace lt w ps nss)) = buf (snd nss)"
  "sockets (snd (groupByNamespace lt w ps nss)) = sockets (snd nss)"
  "ticks (snd (groupByNamespace lt w ps nss)) = ticks (snd nss)"
  "pauses (snd (groupByNamespace lt w ps nss)) = pauses (snd nss)"
  "tableReads (snd (groupByNamespace lt w ps nss)) = tableReads (snd nss)"
  "examined (snd (groupByNamespace lt w ps nss)) = examined (snd nss)" by simp_all
qed

lemma scanStart_frame [simp]:
  "procRoot (scanStart lt w walker s) = procRoot s"
  "buf (scanStart lt w walker s) = buf s"
  "sockets (scanStart lt w walker s) = Map.empty"
  "ticks (scanStart lt w walker s) = ticks s"
  "pauses (scanStart lt w walker s) = pauses s"
  "tableReads (scanStart lt w walker s) = tableReads s"
  "examined (scanStart lt w walker s) = examined s"
  by (simp_all add: scanStart_def)

lemma Itoa_100: "Itoa 100 = ''100''"
  by code_simp

lemma Itoa_200: "Itoa 200 = ''200''"
  by code_simp


section \<open>readProcessConnections\<close>

lemma readFile_error: "snd (fst (readFile w f s)) = readError (openRead (w (clock s)) f)"
  by (simp add: readFile_def readError_def split: file_read.splits)

lemma readLoop_Cons:
  "readLoop w (p # ps) errs s =
     (let a = readFile w (tcpFile (procRoot s) p) s;
          b = readFile w (tcp6File (procRoot s) p) (snd a)
      in if snd (fst a) \<noteq> None \<or> snd (fst b) \<noteq> None
         then readLoop w ps (snd (fst a), snd (fst b)) (snd b)
         else ((fst (fst a) + fst (fst b) > 0, None), snd b))"
proof -
  let ?d = "Itoa (sint (pPID p))"
  obtain r1 e1 s1 where a: "readFile w (Join [procRoot s, [?d], [''net'', ''tcp'']]) s = ((r1, e1), s1)"
    by (metis surj_pair)
  obtain r2 e2 s2 where b: "readFile w (Join [procRoot s, [?d], [''net'', ''tcp6'']]) s1 = ((r2, e2), s2)"
    by (metis surj_pair)
  have "procRoot s1 = procRoot s"
    using readFile_fields(1) [of w "Join [procRoot s, [?d], [''net'', ''tcp'']]" s] a by simp
  then show ?thesis using a b by (simp add: tcpFile_def tcp6File_def Let_def)
qed

lemma readLoop_all_fail:
  assumes "ps \<noteq> []" and "allFail w (procRoot s) ps"
  shows "fst (readLoop w ps errs s) =
           (False, lastError w (procRoot s) (last ps) (clock s + 2 * (length ps - 1))) \<and>
         lastError w (procRoot s) (last ps) (clock s + 2 * (length ps - 1)) \<noteq> None"
  using assms
proof (induction ps arbitrary: errs s)
  case Nil
  then show ?case by simp
next
  case (Cons p ps)
  let ?a = "readFile w (tcpFile (procRoot s) p) s"
  let ?b = "readFile w (tcp6File (procRoot s) p) (snd ?a)"
  have ea: "snd (fst ?a) = readError (openRead (w (clock s)) (tcpFile (procRoot s) p))"
    by (rule readFile_error)
  have eb: "snd (fst ?b) = readError (openRead (w (Suc (clock s))) (tcp6File (procRoot s) p))"
    by (simp add: readFile_error)
  have fail: "snd (fst ?a) \<noteq> None \<or> snd (fst ?b) \<noteq> None"
    using Cons.prems(2) unfolding ea eb allFail_def by simp
  then have step: "readLoop w (p # ps) errs s = readLoop w ps (snd (fst ?a), snd (fst ?b)) (snd ?b)"
    by (simp add: readLoop_Cons Let_def del: readLoop.simps)
  show ?case
  proof (cases "ps = []")
    case True
    have "fst (readLoop w [] (snd (fst ?a), snd (fst ?b)) (snd ?b)) =
        (False, lastError w (procRoot s) p (clock s))"
      unfolding ea eb lastError_def by (simp split: option.splits)
    moreover have "lastError w (procRoot s) p (clock s) \<noteq> None"
      using fail unfolding ea eb lastError_def by (auto split: option.splits)
    ultimately show ?thesis unfolding step using True by simp
  next
    case False
    have "allFail w (procRoot (snd ?b)) ps" using Cons.prems(2) by (simp add: allFail_def)
    from Cons.IH [OF False this, of "(snd (fst ?a), snd (fst ?b))"] False
    show ?thesis unfolding step
      by (cases ps) (simp_all del: readLoop.simps)
  qed
qed

lemma readFile_ok:
  "snd (fst (readFile w f s)) = None \<Longrightarrow>
     \<exists>bs. openRead (w (clock s)) f = ReadsTo bs None \<and> fst (fst (readFile w f s)) = int (length bs)"
  by (auto simp: readFile_def split: file_read.splits)

lemma readLoop_empty:
  assumes "\<forall>t. \<forall>p \<in> set ps. \<forall>bs.
        (openRead (w t) (tcpFile (procRoot s) p) = ReadsTo bs None \<longrightarrow> bs = []) \<and>
        (openRead (w t) (tcp6File (procRoot s) p) = ReadsTo bs None \<longrightarrow> bs = [])"
    and "\<exists>p \<in> set ps. \<forall>t.
        readError (openRead (w t) (tcpFile (procRoot s) p)) = None \<and>
        readError (openRead (w t) (tcp6File (procRoot s) p)) = None"
  shows "fst (readLoop w ps errs s) = (False, None)"
  using assms
proof (induction ps arbitrary: errs s)
  case Nil
  then show ?case by simp
next
  case (Cons p ps)
  let ?a = "readFile w (tcpFile (procRoot s) p) s"
  let ?b = "readFile w (tcp6File (procRoot s) p) (snd ?a)"
  show ?case
  proof (cases "snd (fst ?a) \<noteq> None \<or> snd (fst ?b) \<noteq> None")
    case False
    then obtain bs bs6 where
      a: "openRead (w (clock s)) (tcpFile (procRoot s) p) = ReadsTo bs None"
         "fst (fst ?a) = int (length bs)" and
      b: "openRead (w (clock (snd ?a))) (tcp6File (procRoot s) p) = ReadsTo bs6 None"
         "fst (fst ?b) = int (length bs6)"
      using readFile_ok [of w "tcpFile (procRoot s) p" s]
        readFile_ok [of w "tcp6File (procRoot s) p" "snd ?a"] by auto
    have "bs = []" "bs6 = []" using Cons.prems(1) a(1) b(1) by auto
    with a b False show ?thesis by (simp add: readLoop_Cons Let_def del: readLoop.simps)
  next
    case True
    then have step: "readLoop w (p # ps) errs s = readLoop w ps (snd (fst ?a), snd (fst ?b)) (snd ?b)"
      by (simp add: readLoop_Cons Let_def del: readLoop.simps)
    from Cons.prems(2) obtain q where q: "q \<in> set (p # ps)"
      "\<forall>t. readError (openRead (w t) (tcpFile (procRoot s) q)) = None \<and>
           readError (openRead (w t) (tcp6File (procRoot s) q)) = None" by blast
    have "q \<noteq> p" using True q(2) by (auto simp: readFile_error)
    with q have "\<exists>p \<in> set ps. \<forall>t.
        readError (openRead (w t) (tcpFile (procRoot (snd ?b)) p)) = None \<and>
        readError (openRead (w t) (tcp6File (procRoot (snd ?b)) p)) = None" by auto
    moreover have "\<forall>t. \<forall>p \<in> set ps. \<forall>bs.
        (openRead (w t) (tcpFile (procRoot (snd ?b)) p) = ReadsTo bs None \<longrightarrow> bs = []) \<and>
        (openRead (w t) (tcp6File (procRoot (snd ?b)) p) = ReadsTo bs None \<longrightarrow> bs = [])"
      using Cons.prems(1) by simp
    ultimately show ?thesis unfolding step by (intro Cons.IH)
  qed
qed

text \<open>
  C7. When every member of a group fails one of its two reads, \<open>readProcessConnections\<close>
  returns \<open>false\<close> with an error that is not nil: the \<open>tcp\<close> error of the last member
  when there is one, else its \<open>tcp6\<close> error. The last member's reads are the interactions
  number \<open>2 * (n - 1)\<close> and the next after the call, \<open>n\<close> being the size of the group.
\<close>

theorem all_members_fail_last_error:
  assumes "procs \<noteq> []" and "allFail w (procRoot s) procs"
  shows "fst (readProcessConnections w procs s) =
           (False, lastError w (procRoot s) (last procs) (clock s + 2 * (length procs - 1))) \<and>
         lastError w (procRoot s) (last procs) (clock s + 2 * (length procs - 1)) \<noteq> None"
  using readLoop_all_fail [OF assms(1), of w "s\<lparr>tableReads := Suc (tableReads s)\<rparr>" "(None, None)"] assms(2)
  by (simp add: readProcessConnections_def)

theorem all_members_fail_last_error_witness:
  "[procA, procB] \<noteq> [] \<and> allFail tablesGone (procRoot initState) [procA, procB] \<and>
   fst (readProcessConnections tablesGone [procA, procB] initState) = (False, Some eio)"
proof -
  have f: "allFail tablesGone (procRoot initState) [procA, procB]"
    by (simp add: allFail_def tablesGone_def hostOf_def tcpFile_def tcp6File_def Join_def
        readError_def initState_def procA_def procB_def Itoa_100 Itoa_200)
  have "lastError tablesGone (procRoot initState) (last [procA, procB])
          (clock initState + 2 * (length [procA, procB] - 1)) = Some eio"
    by (simp add: lastError_def tablesGone_def hostOf_def tcpFile_def tcp6File_def Join_def
        readError_def initState_def procB_def Itoa_200)
  with all_members_fail_last_error [OF _ f] f show ?thesis by simp
qed

text \<open>
  C4. When the reads of a group's tables that succeed give zero bytes, and some member can
  be read, \<open>readProcessConnections\<close> reports \<open>false\<close> with a nil error, and
  \<open>walkNamespacePid\<close> returns nil in the state the table read left: no descriptor
  directory is listed, no descriptor examined and the result map is as it was, whatever
  the descriptors of the group's processes are.
\<close>

theorem empty_tables_skip_group:
  assumes "emptyTables w (procRoot s) procs"
  shows "fst (readProcessConnections w procs s) = (False, None) \<and>
         walkNamespacePid w procs fdBlockSize s = (None, snd (readProcessConnections w procs s)) \<and>
         sockets (snd (walkNamespacePid w procs fdBlockSize s)) = sockets s \<and>
         examined (snd (walkNamespacePid w procs fdBlockSize s)) = examined s"
proof -
  have "fst (readProcessConnections w procs s) = (False, None)"
    using assms unfolding emptyTables_def readProcessConnections_def
    by (intro readLoop_empty) simp_all
  then show ?thesis by (simp add: walkNamespacePid_cases Let_def)
qed

theorem empty_tables_skip_group_witness:
  "emptyTables idleNamespace (procRoot initState) [procA, procB] \<and>
   fst (readProcessConnections idleNamespace [procA, procB] initState) = (False, None) \<and>
   fst (walkNamespacePid idleNamespace [procA, procB] 2 initState) = None \<and>
   sockets (snd (walkNamespacePid idleNamespace [procA, procB] 2 initState)) = Map.empty \<and>
   examined (snd (walkNamespacePid idleNamespace [procA, procB] 2 initState)) = 0"
proof -
  have f: "emptyTables idleNamespace (procRoot initState) [procA, procB]"
    by (simp add: emptyTables_def idleNamespace_def hostOf_def tcpFile_def tcp6File_def Join_def
        readError_def initState_def procA_def procB_def Itoa_100 Itoa_200)
  from empty_tables_skip_group [OF f, of 2] f show ?thesis by (simp add: initState_def)
qed

section \<open>The rate limit\<close>


text \<open>
  The count carried to the next loop head, which is the number of entries examined since
  the last pause or the start of the walk, is at most \<open>K + D\<close>.
\<close>

lemma procBody_count_bound:
  assumes "0 \<le> K"
    and "\<forall>t fds. readDirNames (w t) (fdDir (procRoot s) p) = Inr fds \<longrightarrow> length fds \<le> D"
    and "fst (procBody w K p ps c s) = Inr c'"
  shows "c' \<le> K + int D"
proof -
  from procBody_budget [OF assms(2), of c K ps]
  consider
    (within) e where "e \<le> D" "c \<le> K" "procBody w K p ps c s = (Inr (c + int e), snd (procBody w K p ps c s))"
  | (paused) e where "e \<le> D" "procBody w K p ps c s = (Inr (int e), snd (procBody w K p ps c s))"
  | (stopped) err where "procBody w K p ps c s = (Inl err, snd (procBody w K p ps c s))"
    by blast
  then show ?thesis
  proof cases
    case within
    have "fst (procBody w K p ps c s) = Inr (c + int e)" by (subst within(3)) simp
    with assms(3) within(1,2) show ?thesis by simp
  next
    case paused
    have "fst (procBody w K p ps c s) = Inr (int e)" by (subst paused(2)) simp
    with assms(1,3) paused(1) show ?thesis by simp
  next
    case stopped
    have "fst (procBody w K p ps c s) = Inl err" by (subst stopped) simp
    with assms(3) show ?thesis by simp
  qed
qed




section \<open>The shared buffer and the table reads of a scan\<close>










text \<open>A range order visits every group once.\<close>

lemma rangeOver_all:
  assumes "rangeOrder order namespaces"
  shows "length (rangeOver namespaces order) = card (dom namespaces)"
    and "set (rangeOver namespaces order) = ran namespaces"
proof -
  have d: "distinct order" and s: "set order = dom namespaces"
    using assms by (simp_all add: rangeOrder_def)
  have "filter (\<lambda>k. namespaces k \<noteq> None) order = order"
    using s by (auto simp: filter_id_conv)
  then have m: "rangeOver namespaces order = map (the \<circ> namespaces) order"
    by (simp only: rangeOver_def map_filter_def)
  have "length (rangeOver namespaces order) = length order" unfolding m by simp
  also have "\<dots> = card (set order)" using d by (simp add: distinct_card)
  finally show "length (rangeOver namespaces order) = card (dom namespaces)" using s by simp
  have "set (rangeOver namespaces order) = (the \<circ> namespaces) ` dom namespaces"
    unfolding m using s by simp
  also have "\<dots> = ran namespaces" by (force simp: ran_def dom_def image_iff)
  finally show "set (rangeOver namespaces order) = ran namespaces" .
qed

text \<open>
  C3 (as amended). The connection tables are read once when the walk of a group starts and
  once more after every rate-limit pause, whatever the number of processes of the group:
  the number of calls of \<open>readProcessConnections\<close> in a scan is the number of groups
  visited plus the number of rate-limit pauses.
\<close>

theorem table_reads_groups_and_pauses:
  "tableReads (snd (walkProcPid lessThan38 w walker order fdBlockSize s)) + pauses s =
     tableReads s + length (scanGroups lessThan38 w walker order s) +
     pauses (snd (walkProcPid lessThan38 w walker order fdBlockSize s))"
  using nsLoop_reads [of w fdBlockSize "scanGroups lessThan38 w walker order s" "scanStart lessThan38 w walker s"]
  by (simp add: walkProcPid_scan)

text \<open>
  C3 as stated fails for the five socket descriptors with \<open>fdBlockSize = 2\<close>: one
  group, two table reads.
\<close>

theorem table_reads_counterexample:
  "length (scanGroups modernKernel fiveSockets [procA, procB] [555] initState) = 1 \<and>
   \<not> (tableReads (snd (walkProcPid modernKernel fiveSockets [procA, procB] [555] 2 initState))
         - tableReads initState
       \<le> length (scanGroups modernKernel fiveSockets [procA, procB] [555] initState))"
  by code_simp

section \<open>The soft stop\<close>



section \<open>The namespace path\<close>

lemma paths_differ: "pre38Path \<noteq> post38Path" "pre38Path \<noteq> []" "post38Path \<noteq> []"
  by (simp_all add: pre38Path_def post38Path_def)

text \<open>
  C8. On its first call (the package variable still empty) the resolver returns the
  legacy path \<open>net/dev\<close> exactly when the kernel version was detected and the version
  library finds it below 3.8, and the path \<open>ns/net\<close> exactly when detection failed or the
  version is not below 3.8. Any later call, whatever the kernel would then answer, returns
  the same path and leaves the state as it is: the kernel is not probed again.
\<close>

theorem namespace_suffix_by_kernel_version:
  "(netNamespacePathSuffix s = [] \<longrightarrow>
      (fst (getNetNamespacePathSuffix lessThan38 w s) = pre38Path \<longleftrightarrow>
         (\<exists>v. kernelVersion (w (clock s)) = Inr v \<and> lessThan38 v)) \<and>
      (fst (getNetNamespacePathSuffix lessThan38 w s) = post38Path \<longleftrightarrow>
         (\<exists>e. kernelVersion (w (clock s)) = Inl e) \<or>
         (\<exists>v. kernelVersion (w (clock s)) = Inr v \<and> \<not> lessThan38 v))) \<and>
   getNetNamespacePathSuffix lessThan38' w' (snd (getNetNamespacePathSuffix lessThan38 w s)) =
     (fst (getNetNamespacePathSuffix lessThan38 w s), snd (getNetNamespacePathSuffix lessThan38 w s))"
proof (cases "netNamespacePathSuffix s = []")
  case False
  then show ?thesis by (simp add: getNetNamespacePathSuffix_def)
next
  case True
  show ?thesis
  proof (cases "kernelVersion (w (clock s))")
    case (Inl e)
    with True show ?thesis
      using paths_differ by (simp add: getNetNamespacePathSuffix_def getKernelVersion_def)
  next
    case (Inr v)
    with True show ?thesis
      using paths_differ by (simp add: getNetNamespacePathSuffix_def getKernelVersion_def)
  qed
qed

theorem namespace_suffix_by_kernel_version_witness:
  "netNamespacePathSuffix initState = [] \<and>
   fst (getNetNamespacePathSuffix oldKernel oldHost initState) = pre38Path \<and>
   getNetNamespacePathSuffix modernKernel fiveSockets
       (snd (getNetNamespacePathSuffix oldKernel oldHost initState)) =
     (pre38Path, snd (getNetNamespacePathSuffix oldKernel oldHost initState)) \<and>
   probes (snd (getNetNamespacePathSuffix oldKernel oldHost initState)) = 1"
proof -
  have a: "netNamespacePathSuffix initState = []" by (simp add: initState_def)
  have b: "\<exists>v. kernelVersion (oldHost (clock initState)) = Inr v \<and> oldKernel v"
    by (simp add: oldHost_def hostOf_def oldKernel_def)
  have c: "probes (snd (getNetNamespacePathSuffix oldKernel oldHost initState)) = 1"
    by (simp add: getNetNamespacePathSuffix_def getKernelVersion_def initState_def
        oldHost_def hostOf_def oldKernel_def)
  from namespace_suffix_by_kernel_version [of initState oldKernel oldHost modernKernel fiveSockets] a b c
  show ?thesis by (simp add: prod_eq_iff)
qed

section \<open>The keys of the result\<close>

lemma readLoop_found:
  "fst (fst (readLoop w ps errs s)) \<Longrightarrow> tableSeen w (procRoot s) ps"
proof (induction ps arbitrary: errs s)
  case Nil
  then show ?case by (cases errs) (simp split: option.splits)
next
  case (Cons p ps)
  let ?a = "readFile w (tcpFile (procRoot s) p) s"
  let ?b = "readFile w (tcp6File (procRoot s) p) (snd ?a)"
  show ?case
  proof (cases "snd (fst ?a) \<noteq> None \<or> snd (fst ?b) \<noteq> None")
    case True
    then have "readLoop w (p # ps) errs s = readLoop w ps (snd (fst ?a), snd (fst ?b)) (snd ?b)"
      by (simp add: readLoop_Cons Let_def del: readLoop.simps)
    with Cons.prems have "tableSeen w (procRoot (snd ?b)) ps"
      by (intro Cons.IH) simp
    then show ?thesis by (auto simp: tableSeen_def)
  next
    case False
    then obtain bs bs6 where
      a: "openRead (w (clock s)) (tcpFile (procRoot s) p) = ReadsTo bs None"
         "fst (fst ?a) = int (length bs)" and
      b: "openRead (w (clock (snd ?a))) (tcp6File (procRoot s) p) = ReadsTo bs6 None"
         "fst (fst ?b) = int (length bs6)"
      using readFile_ok [of w "tcpFile (procRoot s) p" s]
        readFile_ok [of w "tcp6File (procRoot s) p" "snd ?a"] by auto
    from False Cons.prems have "0 < fst (fst ?a) + fst (fst ?b)"
      by (simp add: readLoop_Cons Let_def del: readLoop.simps)
    then have "0 < length bs + length bs6" using a(2) b(2) by linarith
    moreover have "clock (snd ?a) = Suc (clock s)" by simp
    ultimately show ?thesis using a(1) b(1) unfolding tableSeen_def
      by (intro bexI [of _ p] exI [of _ "clock s"] exI [of _ bs] exI [of _ bs6]) simp_all
  qed
qed

lemma readProcessConnections_found:
  "fst (fst (readProcessConnections w ps s)) \<Longrightarrow> tableSeen w (procRoot s) ps"
  using readLoop_found [of w ps "(None, None)" "s\<lparr>tableReads := Suc (tableReads s)\<rparr>"]
  by (simp add: readProcessConnections_def)

lemma procBody_sockets:
  assumes "sockets (snd (procBody w K p ps c s)) ino = Some pr"
  shows "sockets s ino = Some pr \<or> (pr = ownerOf p \<and> socketSeen w (procRoot s) p ino)"
proof -
  let ?r = "rateLimit w K (p # ps) c s"
  show ?thesis
  proof (cases "fst ?r")
    case (Inl err)
    with assms show ?thesis by (simp add: procBody_def Let_def)
  next
    case (Inr c1)
    show ?thesis
    proof (cases "readDirNames (w (clock (snd ?r))) (fdDir (procRoot s) p)")
      case (Inl err)
      with assms Inr show ?thesis by (simp add: procBody_def Let_def)
    next
      case fds: (Inr fds)
      with assms Inr have
        "sockets (snd (fdLoop w (fdDir (procRoot s) p) p fds (None, c1) (advance (snd ?r)))) ino = Some pr"
        by (simp add: procBody_def Let_def)
      from fdLoop_sockets [OF this] have
        "sockets s ino = Some pr \<or>
         (pr = ownerOf p \<and> (\<exists>fd \<in> set fds. \<exists>t st. stat (w t) (Join [fdDir (procRoot s) p, [fd]]) = Inr st \<and>
            Mode st AND S_IFMT = S_IFSOCK \<and> Ino st = ino))" by simp
      then show ?thesis using fds unfolding socketSeen_def by blast
    qed
  qed
qed

lemma procLoop_stop:
  "fst (procBody w K p ps c s) = Inl err \<Longrightarrow>
     procLoop w K (p # ps) c s = (err, snd (procBody w K p ps c s))"
  by (cases "procBody w K p ps c s") (simp add: procLoop_Cons del: procLoop.simps)

lemma procLoop_next:
  "fst (procBody w K p ps c s) = Inr c' \<Longrightarrow>
     procLoop w K (p # ps) c s = procLoop w K ps c' (snd (procBody w K p ps c s))"
  by (cases "procBody w K p ps c s") (simp add: procLoop_Cons del: procLoop.simps)

lemma procLoop_sockets:
  assumes "sockets (snd (procLoop w K ps c s)) ino = Some pr"
  shows "sockets s ino = Some pr \<or>
    (\<exists>p \<in> set ps. pr = ownerOf p \<and> socketSeen w (procRoot s) p ino)"
  using assms
proof (induction ps arbitrary: c s)
  case Nil
  then show ?case by simp
next
  case (Cons p ps)
  let ?b = "procBody w K p ps c s"
  show ?case
  proof (cases "fst ?b")
    case (Inl err)
    then have "snd (procLoop w K (p # ps) c s) = snd ?b"
      by (simp add: procLoop_stop del: procLoop.simps)
    with Cons.prems procBody_sockets [of w K p ps c s ino pr] show ?thesis by auto
  next
    case (Inr c')
    then have "procLoop w K (p # ps) c s = procLoop w K ps c' (snd ?b)"
      by (rule procLoop_next)
    with Cons.prems Cons.IH [of c' "snd ?b"]
    have "sockets (snd ?b) ino = Some pr \<or>
      (\<exists>p \<in> set ps. pr = ownerOf p \<and> socketSeen w (procRoot s) p ino)" by simp
    with procBody_sockets [of w K p ps c s ino pr] show ?thesis by auto
  qed
qed

lemma walkNamespacePid_sockets:
  assumes "sockets (snd (walkNamespacePid w procs K s)) ino = Some pr"
  shows "sockets s ino = Some pr \<or>
    (tableSeen w (procRoot s) procs \<and>
     (\<exists>p \<in> set procs. pr = ownerOf p \<and> socketSeen w (procRoot s) p ino))"
proof -
  let ?r = "readProcessConnections w procs s"
  show ?thesis
  proof (cases "snd (fst ?r) \<noteq> None \<or> \<not> fst (fst ?r)")
    case True
    with assms show ?thesis by (simp add: walkNamespacePid_cases Let_def)
  next
    case False
    then have "tableSeen w (procRoot s) procs" by (simp add: readProcessConnections_found)
    moreover from False assms have "sockets (snd (procLoop w K procs 0 (snd ?r))) ino = Some pr"
      by (simp add: walkNamespacePid_cases Let_def)
    from procLoop_sockets [OF this] have "sockets s ino = Some pr \<or>
      (\<exists>p \<in> set procs. pr = ownerOf p \<and> socketSeen w (procRoot s) p ino)" by simp
    ultimately show ?thesis by blast
  qed
qed

lemma nsLoop_sockets:
  assumes "sockets (nsLoop w K groups s) ino = Some pr"
  shows "sockets s ino = Some pr \<or>
    (\<exists>procs \<in> set groups. tableSeen w (procRoot s) procs \<and>
       (\<exists>p \<in> set procs. pr = ownerOf p \<and> socketSeen w (procRoot s) p ino))"
  using assms
proof (induction groups arbitrary: s)
  case Nil
  then show ?case by simp
next
  case (Cons g groups)
  let ?s1 = "snd (walkNamespacePid w g K (recvTick s))"
  from Cons.prems Cons.IH [of ?s1] have "sockets ?s1 ino = Some pr \<or>
    (\<exists>procs \<in> set groups. tableSeen w (procRoot s) procs \<and>
       (\<exists>p \<in> set procs. pr = ownerOf p \<and> socketSeen w (procRoot s) p ino))" by simp
  with walkNamespacePid_sockets [of w g K "recvTick s" ino pr] show ?case by auto
qed

text \<open>
  C6. Every inode that is a key of the result of a scan was given by the stat of a
  descriptor entry whose file-type bits are those of a socket; the entry is listed in the
  descriptor directory of a process of a visited group, the value stored under the key is
  that process, and a read of the connection tables of that group was not empty. An inode
  that no stat ever reports with the file type of a socket is not a key.
\<close>

theorem result_keys_are_sockets:
  "(\<forall>ino owner.
      fst (fst (walkProcPid lessThan38 w walker order fdBlockSize s)) ino = Some owner \<longrightarrow>
      (\<exists>procs \<in> set (scanGroups lessThan38 w walker order s).
         tableSeen w (procRoot s) procs \<and>
         (\<exists>p \<in> set procs. owner = ownerOf p \<and> socketSeen w (procRoot s) p ino))) \<and>
   (\<forall>ino.
      (\<forall>t name st. stat (w t) name = Inr st \<and> Ino st = ino \<longrightarrow> Mode st AND S_IFMT \<noteq> S_IFSOCK) \<longrightarrow>
      fst (fst (walkProcPid lessThan38 w walker order fdBlockSize s)) ino = None)"
proof -
  let ?res = "fst (fst (walkProcPid lessThan38 w walker order fdBlockSize s))"
  have res: "?res = sockets (nsLoop w fdBlockSize (scanGroups lessThan38 w walker order s)
      (scanStart lessThan38 w walker s))" by (simp add: walkProcPid_scan)
  have 1: "\<exists>procs \<in> set (scanGroups lessThan38 w walker order s).
         tableSeen w (procRoot s) procs \<and>
         (\<exists>p \<in> set procs. owner = ownerOf p \<and> socketSeen w (procRoot s) p ino)"
    if "?res ino = Some owner" for ino owner
    using nsLoop_sockets [of w fdBlockSize "scanGroups lessThan38 w walker order s"
        "scanStart lessThan38 w walker s" ino owner] that unfolding res by simp
  have 2: "?res ino = None"
    if h: "\<forall>t name st. stat (w t) name = Inr st \<and> Ino st = ino \<longrightarrow> Mode st AND S_IFMT \<noteq> S_IFSOCK" for ino
  proof (cases "?res ino")
    case None
    then show ?thesis .
  next
    case (Some owner)
    from 1 [OF this] obtain p where "socketSeen w (procRoot s) p ino" by blast
    with h show ?thesis unfolding socketSeen_def by blast
  qed
  from 1 2 show ?thesis by blast
qed

theorem result_keys_are_sockets_witness:
  "fst (fst (walkProcPid modernKernel scenarioAB [procA, procB] [555] 2 initState)) 9999
     = Some \<lparr>PID = 200, Name = ''B''\<rparr> \<and>
   tableSeen scenarioAB (procRoot initState) [procA, procB] \<and>
   socketSeen scenarioAB (procRoot initState) procB 9999 \<and>
   fst (fst (walkProcPid modernKernel scenarioAB [procA, procB] [555] 2 initState)) 4242 = None"
proof -
  let ?res = "fst (fst (walkProcPid modernKernel scenarioAB [procA, procB] [555] 2 initState))"
  have r: "?res 9999 = Some \<lparr>PID = 200, Name = ''B''\<rparr>" by code_simp
  have g: "scanGroups modernKernel scenarioAB [procA, procB] [555] initState = [[procA, procB]]"
    by code_simp
  have h: "\<forall>t name st. stat (scenarioAB t) name = Inr st \<and> Ino st = 4242 \<longrightarrow>
      Mode st AND S_IFMT \<noteq> S_IFSOCK"
    by (auto simp: scenarioAB_def hostOf_def sock_def regular_def S_IFMT_def S_IFSOCK_def
        split: if_splits)
  note inst = result_keys_are_sockets [of modernKernel scenarioAB "[procA, procB]" "[555]" 2 initState]
  from inst r have "\<exists>procs \<in> set (scanGroups modernKernel scenarioAB [procA, procB] [555] initState).
         tableSeen scenarioAB (procRoot initState) procs \<and>
         (\<exists>p \<in> set procs. \<lparr>PID = 200, Name = ''B''\<rparr> = ownerOf p \<and>
            socketSeen scenarioAB (procRoot initState) p 9999)" by blast
  then have "tableSeen scenarioAB (procRoot initState) [procA, procB] \<and>
    socketSeen scenarioAB (procRoot initState) procB 9999"
    unfolding g by (auto simp: ownerOf_def procA_def procB_def)
  moreover from inst h have "?res 4242 = None" by blast
  ultimately show ?thesis using r by simp
qed

section \<open>Scanning an unchanged host twice\<close>

lemma readFile_const: "fst (readFile (\<lambda>t. h) f s) = fst (readFile (\<lambda>t. h) f s')"
  by (simp add: readFile_def split: file_read.splits)

lemma readLoop_const:
  "procRoot s = procRoot s' \<Longrightarrow>
     fst (readLoop (\<lambda>t. h) ps errs s) = fst (readLoop (\<lambda>t. h) ps errs s')"
proof (induction ps arbitrary: errs s s')
  case Nil
  show ?case by (cases errs) (simp split: option.splits)
next
  case (Cons p ps)
  let ?w = "\<lambda>t::nat. h"
  let ?a = "readFile ?w (tcpFile (procRoot s) p) s"
  let ?b = "readFile ?w (tcp6File (procRoot s) p) (snd ?a)"
  let ?a' = "readFile ?w (tcpFile (procRoot s') p) s'"
  let ?b' = "readFile ?w (tcp6File (procRoot s') p) (snd ?a')"
  have a: "fst ?a = fst ?a'" using Cons.prems readFile_const [of h _ s s'] by simp
  have b: "fst ?b = fst ?b'" using Cons.prems readFile_const [of h _ "snd ?a" "snd ?a'"] by simp
  have "procRoot (snd ?b) = procRoot (snd ?b')" using Cons.prems by simp
  from Cons.IH [OF this] a b show ?case
    by (simp add: readLoop_Cons Let_def del: readLoop.simps)
qed

lemma readProcessConnections_const:
  "procRoot s = procRoot s' \<Longrightarrow>
     fst (readProcessConnections (\<lambda>t. h) ps s) = fst (readProcessConnections (\<lambda>t. h) ps s')"
  unfolding readProcessConnections_def by (rule readLoop_const) simp

lemma fdLoop_const:
  assumes "sockets s = m ++ sockets s'"
  shows "fst (fdLoop (\<lambda>t. h) b p fds pc s) = fst (fdLoop (\<lambda>t. h) b p fds pc s') \<and>
         sockets (snd (fdLoop (\<lambda>t. h) b p fds pc s)) = m ++ sockets (snd (fdLoop (\<lambda>t. h) b p fds pc s'))"
  using assms
proof (induction fds arbitrary: pc s s')
  case Nil
  then show ?case by (cases pc) simp
next
  case (Cons fd fds)
  obtain proc c where pc: "pc = (proc, c)" by (cases pc)
  let ?w = "\<lambda>t::nat. h"
  let ?n = "\<lambda>s. advance (s\<lparr>examined := Suc (examined s)\<rparr>)"
  show ?case
  proof (cases "\<exists>st. stat h (Join [b, [fd]]) = Inr st \<and> Mode st AND S_IFMT = S_IFSOCK")
    case False
    then have e1: "fdLoop ?w b p (fd # fds) (proc, c) s = fdLoop ?w b p fds (proc, c + 1) (?n s)"
      and e2: "fdLoop ?w b p (fd # fds) (proc, c) s' = fdLoop ?w b p fds (proc, c + 1) (?n s')"
      by (simp_all add: fsStat_def split: sum.splits)
    have "sockets (?n s) = m ++ sockets (?n s')" using Cons.prems by simp
    from Cons.IH [OF this] show ?thesis unfolding pc e1 e2 .
  next
    case True
    then obtain st where st: "stat h (Join [b, [fd]]) = Inr st" "Mode st AND S_IFMT = S_IFSOCK"
      by blast
    let ?o = "case proc of None \<Rightarrow> \<lparr>PID = pPID p, Name = pName p\<rparr> | Some pr \<Rightarrow> pr"
    let ?u = "\<lambda>s. (?n s)\<lparr>sockets := (sockets (?n s))(Ino st \<mapsto> ?o)\<rparr>"
    from st have e1: "fdLoop ?w b p (fd # fds) (proc, c) s = fdLoop ?w b p fds (Some ?o, c + 1) (?u s)"
      and e2: "fdLoop ?w b p (fd # fds) (proc, c) s' = fdLoop ?w b p fds (Some ?o, c + 1) (?u s')"
      by (simp_all add: fsStat_def Let_def)
    have "sockets (?u s) = m ++ sockets (?u s')" using Cons.prems by simp
    from Cons.IH [OF this] show ?thesis unfolding pc e1 e2 .
  qed
qed


lemma rateLimit_const:
  "procRoot s = procRoot s' \<Longrightarrow>
     fst (rateLimit (\<lambda>t. h) K rest c s) = fst (rateLimit (\<lambda>t. h) K rest c s')"
  using readProcessConnections_const [of "rateLimitPause s" "rateLimitPause s'" h rest]
  by (cases "K < c") (simp_all add: rateLimit_within rateLimit_beyond Let_def)

lemma procBody_const:
  assumes "over m s s'"
  shows "fst (procBody (\<lambda>t. h) K p ps c s) = fst (procBody (\<lambda>t. h) K p ps c s') \<and>
         over m (snd (procBody (\<lambda>t. h) K p ps c s)) (snd (procBody (\<lambda>t. h) K p ps c s'))"
proof -
  let ?w = "\<lambda>t::nat. h"
  let ?r = "rateLimit ?w K (p # ps) c s"
  let ?r' = "rateLimit ?w K (p # ps) c s'"
  have root: "procRoot s = procRoot s'" and m: "sockets s = m ++ sockets s'"
    using assms by (simp_all add: over_def)
  have r: "fst ?r = fst ?r'" using root by (rule rateLimit_const)
  show ?thesis
  proof (cases "fst ?r")
    case (Inl err)
    then have "fst ?r' = Inl err" using r by simp
    with Inl root m show ?thesis by (simp add: procBody_def Let_def over_def)
  next
    case (Inr c1)
    then have r': "fst ?r' = Inr c1" using r by simp
    show ?thesis
    proof (cases "readDirNames h (fdDir (procRoot s) p)")
      case (Inl err)
      then have "readDirNames h (fdDir (procRoot s') p) = Inl err" using root by simp
      with Inl Inr r' root m show ?thesis by (simp add: procBody_def Let_def over_def)
    next
      case fds: (Inr fds)
      then have fds': "readDirNames h (fdDir (procRoot s') p) = Inr fds" using root by simp
      have "sockets (advance (snd ?r)) = m ++ sockets (advance (snd ?r'))" using m by simp
      from fdLoop_const [OF this, of h "fdDir (procRoot s) p" p fds "(None, c1)"]
      have "sockets (snd (fdLoop ?w (fdDir (procRoot s) p) p fds (None, c1) (advance (snd ?r)))) =
        m ++ sockets (snd (fdLoop ?w (fdDir (procRoot s') p) p fds (None, c1) (advance (snd ?r'))))"
        using root by simp
      then show ?thesis using Inr r' root fds fds' by (simp add: procBody_def Let_def over_def)
    qed
  qed
qed

lemma procLoop_const:
  assumes "over m s s'"
  shows "fst (procLoop (\<lambda>t. h) K ps c s) = fst (procLoop (\<lambda>t. h) K ps c s') \<and>
         over m (snd (procLoop (\<lambda>t. h) K ps c s)) (snd (procLoop (\<lambda>t. h) K ps c s'))"
  using assms
proof (induction ps arbitrary: c s s')
  case Nil
  then show ?case by simp
next
  case (Cons p ps)
  let ?w = "\<lambda>t::nat. h"
  let ?b = "procBody ?w K p ps c s"
  let ?b' = "procBody ?w K p ps c s'"
  from procBody_const [OF Cons.prems, of h K p ps c]
  have b: "fst ?b = fst ?b'" and o: "over m (snd ?b) (snd ?b')" by simp_all
  show ?case
  proof (cases "fst ?b")
    case (Inl err)
    then have "procLoop ?w K (p # ps) c s = (err, snd ?b)" "procLoop ?w K (p # ps) c s' = (err, snd ?b')"
      using b by (simp_all add: procLoop_stop del: procLoop.simps)
    with o show ?thesis by simp
  next
    case (Inr c')
    then have "procLoop ?w K (p # ps) c s = procLoop ?w K ps c' (snd ?b)"
      "procLoop ?w K (p # ps) c s' = procLoop ?w K ps c' (snd ?b')"
      using b by (simp_all add: procLoop_next del: procLoop.simps)
    with Cons.IH [OF o, of c'] show ?thesis by simp
  qed
qed

lemma walkNamespacePid_const:
  assumes "over m s s'"
  shows "fst (walkNamespacePid (\<lambda>t. h) procs K s) = fst (walkNamespacePid (\<lambda>t. h) procs K s') \<and>
         over m (snd (walkNamespacePid (\<lambda>t. h) procs K s)) (snd (walkNamespacePid (\<lambda>t. h) procs K s'))"
proof -
  let ?w = "\<lambda>t::nat. h"
  let ?r = "readProcessConnections ?w procs s"
  let ?r' = "readProcessConnections ?w procs s'"
  have r: "fst ?r = fst ?r'" using assms by (intro readProcessConnections_const) (simp add: over_def)
  have o: "over m (snd ?r) (snd ?r')" using assms by (simp add: over_def)
  show ?thesis
  proof (cases "snd (fst ?r) \<noteq> None \<or> \<not> fst (fst ?r)")
    case True
    with r o show ?thesis by (simp add: walkNamespacePid_cases Let_def)
  next
    case False
    with r procLoop_const [OF o, of h K procs 0] show ?thesis
      by (simp add: walkNamespacePid_cases Let_def)
  qed
qed

lemma getNetNamespacePathSuffix_const:
  "fst (getNetNamespacePathSuffix lt (\<lambda>t. h) s) = effectiveSuffix lt h s"
  "effectiveSuffix lt h (snd (getNetNamespacePathSuffix lt (\<lambda>t. h) s)) = effectiveSuffix lt h s"
  using paths_differ
  by (simp_all add: getNetNamespacePathSuffix_def getKernelVersion_def effectiveSuffix_def
      split: sum.splits)

lemma addToNamespace_const:
  assumes "procRoot s = procRoot s'" and "effectiveSuffix lt h s = effectiveSuffix lt h s'"
  shows "fst (addToNamespace lt (\<lambda>t. h) p (ns, s)) = fst (addToNamespace lt (\<lambda>t. h) p (ns, s')) \<and>
         effectiveSuffix lt h (snd (addToNamespace lt (\<lambda>t. h) p (ns, s))) =
           effectiveSuffix lt h (snd (addToNamespace lt (\<lambda>t. h) p (ns, s')))"
proof -
  let ?w = "\<lambda>t::nat. h"
  let ?g = "getNetNamespacePathSuffix lt ?w s"
  let ?g' = "getNetNamespacePathSuffix lt ?w s'"
  have g: "fst ?g = effectiveSuffix lt h s" "fst ?g' = effectiveSuffix lt h s"
    using assms(2) by (simp_all add: getNetNamespacePathSuffix_const)
  have e: "effectiveSuffix lt h (snd ?g) = effectiveSuffix lt h (snd ?g')"
    using assms(2) by (simp add: getNetNamespacePathSuffix_const)
  have adv: "\<And>x. effectiveSuffix lt h (advance x) = effectiveSuffix lt h x"
    by (simp add: effectiveSuffix_def)
  obtain x where x: "?g = (effectiveSuffix lt h s, x)" using g(1) by (metis prod.collapse)
  obtain x' where x': "?g' = (effectiveSuffix lt h s, x')" using g(2) by (metis prod.collapse)
  have rx: "procRoot x = procRoot s" "procRoot x' = procRoot s"
    using getNetNamespacePathSuffix_frame(1) [of lt ?w s] getNetNamespacePathSuffix_frame(1) [of lt ?w s']
      assms(1) unfolding x x' by simp_all
  have ex: "effectiveSuffix lt h x = effectiveSuffix lt h x'" using e unfolding x x' by simp
  show ?thesis
    by (simp add: addToNamespace_def x x' rx fsStat_def Let_def adv ex split: sum.splits)
qed

lemma groupByNamespace_const:
  assumes "procRoot s = procRoot s'" and "effectiveSuffix lt h s = effectiveSuffix lt h s'"
  shows "fst (groupByNamespace lt (\<lambda>t. h) ps (ns, s)) = fst (groupByNamespace lt (\<lambda>t. h) ps (ns, s'))"
  using assms
proof (induction ps arbitrary: ns s s')
  case Nil
  show ?case by simp
next
  case (Cons p ps)
  let ?w = "\<lambda>t::nat. h"
  let ?a = "addToNamespace lt ?w p (ns, s)"
  let ?a' = "addToNamespace lt ?w p (ns, s')"
  from addToNamespace_const [OF Cons.prems, of p ns]
  have f: "fst ?a = fst ?a'" and e: "effectiveSuffix lt h (snd ?a) = effectiveSuffix lt h (snd ?a')"
    by simp_all
  have r: "procRoot (snd ?a) = procRoot (snd ?a')" using Cons.prems(1) by simp
  from Cons.IH [OF r e, of "fst ?a"] f show ?case
    by (metis groupByNamespace.simps(2) prod.collapse)
qed

lemma groupByNamespace_suffix:
  "effectiveSuffix lt h (snd (groupByNamespace lt (\<lambda>t. h) ps nss)) = effectiveSuffix lt h (snd nss)"
proof (induction ps arbitrary: nss)
  case Nil
  show ?case by simp
next
  case (Cons p ps)
  obtain ns s where nss: "nss = (ns, s)" by (cases nss)
  have adv: "\<And>x. effectiveSuffix lt h (advance x) = effectiveSuffix lt h x"
    by (simp add: effectiveSuffix_def)
  have "effectiveSuffix lt h (snd (addToNamespace lt (\<lambda>t. h) p (ns, s))) = effectiveSuffix lt h s"
    using getNetNamespacePathSuffix_const(2) [of lt h s]
    by (cases "getNetNamespacePathSuffix lt (\<lambda>t. h) s")
       (simp add: addToNamespace_def fsStat_def Let_def adv split: sum.splits)
  then show ?case using Cons.IH [of "addToNamespace lt (\<lambda>t. h) p (ns, s)"] by (simp add: nss)
qed

lemma effectiveSuffix_cong:
  "netNamespacePathSuffix s = netNamespacePathSuffix s' \<Longrightarrow>
     effectiveSuffix lt h s = effectiveSuffix lt h s'"
  by (simp add: effectiveSuffix_def)

lemma scan_again_groups:
  "scanGroups lt (\<lambda>t. h) walker order (snd (walkProcPid lt (\<lambda>t. h) walker order0 K s)) =
   scanGroups lt (\<lambda>t. h) walker order s"
proof -
  let ?w = "\<lambda>t::nat. h"
  let ?s1 = "snd (walkProcPid lt ?w walker order0 K s)"
  have s1: "?s1 = nsLoop ?w K (scanGroups lt ?w walker order0 s) (scanStart lt ?w walker s)"
    by (simp add: walkProcPid_scan)
  have "effectiveSuffix lt h (?s1\<lparr>sockets := Map.empty\<rparr>) = effectiveSuffix lt h ?s1"
    by (rule effectiveSuffix_cong) simp
  also have "\<dots> = effectiveSuffix lt h (scanStart lt ?w walker s)"
    unfolding s1 by (rule effectiveSuffix_cong) simp
  also have "\<dots> = effectiveSuffix lt h (s\<lparr>sockets := Map.empty\<rparr>)"
    unfolding scanStart_def using groupByNamespace_suffix [of lt h walker "(Map.empty, s\<lparr>sockets := Map.empty\<rparr>)"]
    by simp
  finally have e: "effectiveSuffix lt h (?s1\<lparr>sockets := Map.empty\<rparr>) =
      effectiveSuffix lt h (s\<lparr>sockets := Map.empty\<rparr>)" .
  have r: "procRoot (?s1\<lparr>sockets := Map.empty\<rparr>) = procRoot (s\<lparr>sockets := Map.empty\<rparr>)"
    unfolding s1 by simp
  show ?thesis unfolding scanGroups_def using groupByNamespace_const [OF r e] by simp
qed

lemma walkNamespacePid_adds:
  "sockets (snd (walkNamespacePid (\<lambda>t. h) g K s)) = sockets s ++ groupSockets h (procRoot s) K g"
proof -
  have "over (sockets s) s (initState\<lparr>procRoot := procRoot s\<rparr>)"
    by (simp add: over_def initState_def)
  from walkNamespacePid_const [OF this, of h g K] show ?thesis
    by (simp add: over_def groupSockets_def)
qed

lemma nsLoop_adds:
  "sockets (nsLoop (\<lambda>t. h) K groups s) =
     foldl (++) (sockets s) (map (groupSockets h (procRoot s) K) groups)"
proof (induction groups arbitrary: s)
  case Nil
  show ?case by simp
next
  case (Cons g groups)
  let ?s1 = "snd (walkNamespacePid (\<lambda>t. h) g K (recvTick s))"
  have "sockets ?s1 = sockets s ++ groupSockets h (procRoot s) K g"
    using walkNamespacePid_adds [of h g K "recvTick s"] by simp
  with Cons.IH [of ?s1] show ?case by simp
qed

lemma groupSockets_dom:
  "groupSockets h root K g ino = Some pr \<Longrightarrow> \<exists>p \<in> set g. socketSeen (\<lambda>t. h) root p ino"
  using walkNamespacePid_sockets [of "\<lambda>t. h" g K "initState\<lparr>procRoot := root\<rparr>" ino pr]
  by (auto simp: groupSockets_def initState_def)

lemma foldl_add_none:
  "\<forall>d \<in> set ds. d k = None \<Longrightarrow> foldl (++) m ds k = m k"
  by (induction ds arbitrary: m) (simp_all add: map_add_def)

lemma foldl_add_some:
  assumes "\<forall>d \<in> set ds. d k = None \<or> d k = Some v"
    and "m k = Some v \<or> (\<exists>d \<in> set ds. d k = Some v)"
  shows "foldl (++) m ds k = Some v"
  using assms
proof (induction ds arbitrary: m)
  case Nil
  then show ?case by simp
next
  case (Cons d ds)
  have "(m ++ d) k = Some v \<or> (\<exists>d \<in> set ds. d k = Some v)"
    using Cons.prems by (auto simp: map_add_def split: option.splits)
  moreover have "\<forall>d \<in> set ds. d k = None \<or> d k = Some v" using Cons.prems(1) by simp
  ultimately show ?case using Cons.IH [of "m ++ d"] by simp
qed

lemma foldl_add_apart:
  assumes "set ds = set ds'"
    and "\<forall>d1 \<in> set ds. \<forall>d2 \<in> set ds. \<forall>k v. d1 k = Some v \<longrightarrow> d2 k = None \<or> d2 k = Some v"
  shows "foldl (++) m ds = foldl (++) m ds'"
proof
  fix k
  show "foldl (++) m ds k = foldl (++) m ds' k"
  proof (cases "\<exists>d \<in> set ds. d k \<noteq> None")
    case False
    then have "\<forall>d \<in> set ds. d k = None" "\<forall>d \<in> set ds'. d k = None" using assms(1) by auto
    then show ?thesis by (simp add: foldl_add_none)
  next
    case True
    then obtain d v where d: "d \<in> set ds" "d k = Some v" by auto
    with assms(2) have a: "\<forall>d \<in> set ds. d k = None \<or> d k = Some v" by blast
    then have a': "\<forall>d \<in> set ds'. d k = None \<or> d k = Some v" using assms(1) by simp
    have "foldl (++) m ds k = Some v" using a d by (intro foldl_add_some) auto
    moreover have "foldl (++) m ds' k = Some v" using a' d assms(1) by (intro foldl_add_some) auto
    ultimately show ?thesis by simp
  qed
qed

lemma rangeOver_set: "set order' = set order \<Longrightarrow> set (rangeOver ns order') = set (rangeOver ns order)"
  by (auto simp: rangeOver_def map_filter_def)

text \<open>
  C9 (as amended). On a host that does not change, a second scan of the same processes,
  run from the state the first scan left, returns the map of the first scan when both
  scans visit the namespace groups in the same order, or when no inode is seen as a socket
  of processes of two different groups (the two orders listing the same keys, as two
  orders of one map do). Without either condition the two maps can differ: Go does not fix
  the order in which the loop of \<open>walkProcPid\<close> visits the groups.
\<close>

theorem scan_twice_identical:
  assumes "set order' = set order"
    and "order' = order \<or>
         groupsApart (\<lambda>t. h) (procRoot s) (scanGroups lessThan38 (\<lambda>t. h) walker order s)"
  shows "fst (walkProcPid lessThan38 (\<lambda>t. h) walker order' fdBlockSize
                (snd (walkProcPid lessThan38 (\<lambda>t. h) walker order fdBlockSize s))) =
         fst (walkProcPid lessThan38 (\<lambda>t. h) walker order fdBlockSize s)"
proof -
  let ?w = "\<lambda>t::nat. h"
  let ?s1 = "snd (walkProcPid lessThan38 ?w walker order fdBlockSize s)"
  let ?G = "scanGroups lessThan38 ?w walker order s"
  let ?G' = "scanGroups lessThan38 ?w walker order' s"
  let ?D = "groupSockets h (procRoot s) fdBlockSize"
  have root: "procRoot ?s1 = procRoot s" by (simp add: walkProcPid_scan)
  have G': "scanGroups lessThan38 ?w walker order' ?s1 = ?G'" by (rule scan_again_groups)
  have first: "fst (walkProcPid lessThan38 ?w walker order fdBlockSize s) =
      (foldl (++) Map.empty (map ?D ?G), None)"
    by (simp add: walkProcPid_scan nsLoop_adds)
  have second: "fst (walkProcPid lessThan38 ?w walker order' fdBlockSize ?s1) =
      (foldl (++) Map.empty (map ?D ?G'), None)"
    by (simp add: walkProcPid_scan [of _ _ _ _ _ ?s1] nsLoop_adds G' root)
  have "foldl (++) Map.empty (map ?D ?G') = foldl (++) Map.empty (map ?D ?G)"
  proof (cases "order' = order")
    case True
    then show ?thesis by simp
  next
    case False
    with assms(2) have apart: "groupsApart ?w (procRoot s) ?G" by simp
    have sets: "set ?G' = set ?G" using assms(1) unfolding scanGroups_def by (rule rangeOver_set)
    show ?thesis
    proof (rule foldl_add_apart)
      show "set (map ?D ?G') = set (map ?D ?G)" using sets by simp
    next
      show "\<forall>d1 \<in> set (map ?D ?G'). \<forall>d2 \<in> set (map ?D ?G'). \<forall>k v.
          d1 k = Some v \<longrightarrow> d2 k = None \<or> d2 k = Some v"
      proof (intro ballI allI impI)
        fix d1 d2 k v
        assume d1: "d1 \<in> set (map ?D ?G')" and d2: "d2 \<in> set (map ?D ?G')" and v: "d1 k = Some v"
        from d1 d2 sets obtain g1 g2 where g: "g1 \<in> set ?G" "d1 = ?D g1" "g2 \<in> set ?G" "d2 = ?D g2"
          by auto
        show "d2 k = None \<or> d2 k = Some v"
        proof (cases "g1 = g2")
          case True
          with g v show ?thesis by simp
        next
          case False
          have "\<exists>p \<in> set g1. socketSeen ?w (procRoot s) p k"
            using v g(2) groupSockets_dom by blast
          with apart g(1,3) False have "\<not> (\<exists>q \<in> set g2. socketSeen ?w (procRoot s) q k)"
            unfolding groupsApart_def by blast
          then have "d2 k = None" using g(4) groupSockets_dom [of h "procRoot s" fdBlockSize g2 k]
            by (cases "d2 k") auto
          then show ?thesis by simp
        qed
      qed
    qed
  qed
  with first second show ?thesis by simp
qed

theorem scan_twice_identical_witness:
  "set [777, 555 :: 64 word] = set [555, 777] \<and>
   groupsApart (\<lambda>t. apartHost) (procRoot initState)
     (scanGroups modernKernel (\<lambda>t. apartHost) [procA, procB] [555, 777] initState) \<and>
   fst (walkProcPid modernKernel (\<lambda>t. apartHost) [procA, procB] [777, 555] 2
          (snd (walkProcPid modernKernel (\<lambda>t. apartHost) [procA, procB] [555, 777] 2 initState))) =
   fst (walkProcPid modernKernel (\<lambda>t. apartHost) [procA, procB] [555, 777] 2 initState)"
proof -
  have o: "set [777, 555 :: 64 word] = set [555, 777]" by auto
  have g: "scanGroups modernKernel (\<lambda>t. apartHost) [procA, procB] [555, 777] initState
      = [[procA], [procB]]" by code_simp
  have a: "\<not> (socketSeen (\<lambda>t. apartHost) (procRoot initState) procA ino \<and>
              socketSeen (\<lambda>t. apartHost) (procRoot initState) procB ino)" for ino
    by (auto simp: socketSeen_def apartHost_def hostOf_def fdDir_def Join_def initState_def
        procA_def procB_def Itoa_100 Itoa_200 sock_def split: if_splits)
  have apart: "groupsApart (\<lambda>t. apartHost) (procRoot initState)
     (scanGroups modernKernel (\<lambda>t. apartHost) [procA, procB] [555, 777] initState)"
    unfolding g groupsApart_def using a by auto
  from scan_twice_identical [OF o disjI2 [OF apart], of 2] o apart show ?thesis by simp
qed

text \<open>
  C9 as stated fails when two namespaces hold the same socket and the two scans visit
  them in different orders: the first scan gives the socket to process 200, the second,
  on the same host, to process 100.
\<close>

theorem scan_twice_counterexample:
  "rangeOrder [555, 777]
     (fst (groupByNamespace modernKernel twoNamespaces [procA, procB] (Map.empty, initState))) \<and>
   rangeOrder [777, 555]
     (fst (groupByNamespace modernKernel twoNamespaces [procA, procB] (Map.empty, initState))) \<and>
   fst (walkProcPid modernKernel twoNamespaces [procA, procB] [777, 555] 2
          (snd (walkProcPid modernKernel twoNamespaces [procA, procB] [555, 777] 2 initState))) \<noteq>
   fst (walkProcPid modernKernel twoNamespaces [procA, procB] [555, 777] 2 initState)"
proof -
  have ns: "fst (groupByNamespace modernKernel twoNamespaces [procA, procB] (Map.empty, initState))
      = [555 \<mapsto> [procA], 777 \<mapsto> [procB]]"
    by (simp add: addToNamespace_def getNetNamespacePathSuffix_def getKernelVersion_def
        modernKernel_def twoNamespaces_def hostOf_def initState_def fsStat_def Join_def
        procA_def procB_def Itoa_100 Itoa_200 post38Path_def regular_def advance_def Let_def)
  have r: "rangeOrder [555, 777] [555 \<mapsto> [procA], 777 \<mapsto> [procB]]"
    "rangeOrder [777, 555] [555 \<mapsto> [procA], 777 \<mapsto> [procB]]"
    by (auto simp: rangeOrder_def)
  have 1: "fst (fst (walkProcPid modernKernel twoNamespaces [procA, procB] [555, 777] 2 initState)) 9999
      = Some (ownerOf procB)" by code_simp
  have 2: "fst (fst (walkProcPid modernKernel twoNamespaces [procA, procB] [777, 555] 2
          (snd (walkProcPid modernKernel twoNamespaces [procA, procB] [555, 777] 2 initState)))) 9999
      = Some (ownerOf procA)" by code_simp
  have "ownerOf procA \<noteq> ownerOf procB" by (simp add: ownerOf_def procA_def procB_def)
  with 1 2 show ?thesis unfolding ns using r by (metis option.inject)
qed

section \<open>The error result of the scan\<close>

text \<open>
  C10. \<open>walkProcPid\<close> returns a nil error for every input: the loop over the groups
  takes the state of each group walk and drops its error, and the function ends with
  \<open>return sockets, nil\<close>.
\<close>

theorem walkProcPid_error_nil:
  "snd (fst (walkProcPid lessThan38 w walker order fdBlockSize s)) = None \<and>
   nsLoop w fdBlockSize (procs # groups) s' =
     nsLoop w fdBlockSize groups (snd (walkNamespacePid w procs fdBlockSize (recvTick s')))"
  by (simp add: walkProcPid_def Let_def split: prod.splits)

text \<open>
  A scan whose only group walk stops with an error: the scan returns nil, with the
  sockets of the first process and none of the second.
\<close>

theorem walkProcPid_error_nil_witness:
  "fst (walkNamespacePid secondUnreadable [procA, procB] 2
          (recvTick (scanStart modernKernel secondUnreadable [procA, procB] initState))) = Some enoent \<and>
   snd (fst (walkProcPid modernKernel secondUnreadable [procA, procB] [555] 2 initState)) = None \<and>
   fst (fst (walkProcPid modernKernel secondUnreadable [procA, procB] [555] 2 initState)) 9003
     = Some \<lparr>PID = 100, Name = ''A''\<rparr> \<and>
   fst (fst (walkProcPid modernKernel secondUnreadable [procA, procB] [555] 2 initState)) 9004
     = None"
proof -
  have "fst (walkNamespacePid secondUnreadable [procA, procB] 2
          (recvTick (scanStart modernKernel secondUnreadable [procA, procB] initState))) = Some enoent"
    by code_simp
  moreover have "fst (fst (walkProcPid modernKernel secondUnreadable [procA, procB] [555] 2 initState)) 9003
     = Some \<lparr>PID = 100, Name = ''A''\<rparr>"
    by code_simp
  moreover have "fst (fst (walkProcPid modernKernel secondUnreadable [procA, procB] [555] 2 initState)) 9004
     = None"
    by code_simp
  ultimately show ?thesis
    using walkProcPid_error_nil [of modernKernel secondUnreadable "[procA, procB]" "[555]" 2 initState]
    by simp
qed

end
